theory Spec2Isabelle
  imports Main "HOL-Library.Word" "HOL-Library.AList"
begin

section \<open>JavaScript strings\<close>

text \<open>
  A JavaScript string is a sequence of UTF-16 code units. Regular expressions without the
  \<open>u\<close> flag, \<open>includes\<close>, \<open>===\<close> and \<open>String.fromCharCode\<close> all work on code units, so
  the model does too. \<open>js\<close> writes an ASCII literal as code units.
\<close>

type_synonym cu = "16 word"
type_synonym jsstring = "cu list"

definition js :: "string \<Rightarrow> jsstring" where
  "js s = map (\<lambda>c. of_nat (of_char c)) s"

text \<open>The regular-expression class \<open>\d\<close>: the ten ASCII digits.\<close>

definition isDigit :: "cu \<Rightarrow> bool" where
  "isDigit c = (0x30 \<le> c \<and> c \<le> 0x39)"

text \<open>The class \<open>\w\<close>: ASCII letters, digits and the underscore.\<close>

definition isWordChar :: "cu \<Rightarrow> bool" where
  "isWordChar c = ((0x61 \<le> c \<and> c \<le> 0x7A) \<or> (0x41 \<le> c \<and> c \<le> 0x5A) \<or> isDigit c \<or> c = 0x5F)"

text \<open>Line terminators of ECMAScript: LF, CR, LS, PS. In multi-line mode \<open>^\<close> matches after one.\<close>

definition isLineTerminator :: "cu \<Rightarrow> bool" where
  "isLineTerminator c = (c = 0x0A \<or> c = 0x0D \<or> c = 0x2028 \<or> c = 0x2029)"

text \<open>
  The class \<open>\s\<close> (and the characters \<open>trim\<close> removes): the white space of ECMAScript
  (TAB, VT, FF, SP, NBSP, ZWNBSP and the Unicode space separators) and the line terminators.
\<close>

definition isSpace :: "cu \<Rightarrow> bool" where
  "isSpace c = (c = 0x09 \<or> c = 0x0B \<or> c = 0x0C \<or> c = 0x20 \<or> c = 0xA0 \<or> c = 0x1680
     \<or> (0x2000 \<le> c \<and> c \<le> 0x200A) \<or> c = 0x202F \<or> c = 0x205F \<or> c = 0x3000 \<or> c = 0xFEFF
     \<or> isLineTerminator c)"

section \<open>Entity decoder: \<open>decodeHtmlEntities\<close>\<close>

text \<open>The table \<open>decodeMap\<close>, in the order of the source. \<open>&lt;\<close> and \<open>&gt;\<close> are not in it.\<close>

definition decodeMap :: "(jsstring \<times> jsstring) list" where
  "decodeMap =
    [(js ''&amp;'', js ''&''),
     (js ''&quot;'', [0x22]),
     (js ''&#39;'', [0x27]),
     (js ''&#x27;'', [0x27]),
     (js ''&apos;'', [0x27]),
     (js ''&nbsp;'', js '' ''),
     (js ''&copy;'', [0xA9]),
     (js ''&reg;'', [0xAE]),
     (js ''&trade;'', [0x2122]),
     (js ''&hellip;'', [0x2026]),
     (js ''&mdash;'', [0x2014]),
     (js ''&ndash;'', [0x2013]),
     (js ''&lsquo;'', [0x2018]),
     (js ''&rsquo;'', [0x2019]),
     (js ''&ldquo;'', [0x201C]),
     (js ''&rdquo;'', [0x201D])]"

text \<open>
  \<open>parseInt(s, 10)\<close> and \<open>parseInt(s, 16)\<close> on a string the regular expression has already
  checked to consist of digits of that radix: the mathematical value of the numeral.
\<close>

definition digitValue :: "cu \<Rightarrow> nat" where
  "digitValue c =
     (if isDigit c then unat c - 0x30
      else if 0x61 \<le> c \<and> c \<le> 0x66 then unat c - 0x61 + 10
      else unat c - 0x41 + 10)"

definition parseInt :: "jsstring \<Rightarrow> nat \<Rightarrow> nat" where
  "parseInt s radix = foldl (\<lambda>acc c. acc * radix + digitValue c) 0 s"

text \<open>
  The value \<open>parseInt\<close> returns is a Number: the double nearest to the mathematical value
  (ties to even). Integers below \<open>2^53\<close> are exact. \<open>String.fromCharCode\<close> then applies
  ToUint16, that is, it keeps the value modulo \<open>2^16\<close>: it produces one code unit, never a
  surrogate pair. (A value that rounds to Infinity gives 0; the finite rounding below is a
  multiple of \<open>2^16\<close> there, hence 0 as well. For a decimal numeral of more than 20
  significant digits the standard lets an engine approximate the value; the rounding here
  is the correct one.)
\<close>

fun bitLength :: "nat \<Rightarrow> nat" where
  "bitLength n = (if n = 0 then 0 else Suc (bitLength (n div 2)))"

declare bitLength.simps [simp del]

definition toNumber :: "nat \<Rightarrow> nat" where
  "toNumber n =
     (if n < 2 ^ 53 then n
      else (let e = bitLength n - 53;
                q = n div 2 ^ e;
                r = n mod 2 ^ e;
                h = 2 ^ (e - 1)
            in (if h < r \<or> (r = h \<and> odd q) then q + 1 else q) * 2 ^ e))"

definition fromCharCode :: "nat \<Rightarrow> cu" where
  "fromCharCode n = of_nat (toNumber n)"

text \<open>\<open>entity.match(/^&#(\d+);$/)\<close>: the digits, when the whole token is \<open>&#\<close>, digits, \<open>;\<close>.\<close>

definition numericMatch :: "jsstring \<Rightarrow> jsstring option" where
  "numericMatch entity =
     (case entity of
        a # h # r \<Rightarrow>
          (if a = 0x26 \<and> h = 0x23 \<and> r \<noteq> [] \<and> last r = 0x3B
              \<and> butlast r \<noteq> [] \<and> list_all isDigit (butlast r)
           then Some (butlast r) else None)
      | _ \<Rightarrow> None)"

text \<open>\<open>entity.match(/^&#x([0-9a-fA-F]+);$/i)\<close>; with the flag \<open>i\<close> the \<open>x\<close> may be \<open>X\<close>.\<close>

definition isHexDigit :: "cu \<Rightarrow> bool" where
  "isHexDigit c = (isDigit c \<or> (0x61 \<le> c \<and> c \<le> 0x66) \<or> (0x41 \<le> c \<and> c \<le> 0x46))"

definition hexMatch :: "jsstring \<Rightarrow> jsstring option" where
  "hexMatch entity =
     (case entity of
        a # h # x # r \<Rightarrow>
          (if a = 0x26 \<and> h = 0x23 \<and> (x = 0x78 \<or> x = 0x58) \<and> r \<noteq> [] \<and> last r = 0x3B
              \<and> butlast r \<noteq> [] \<and> list_all isHexDigit (butlast r)
           then Some (butlast r) else None)
      | _ \<Rightarrow> None)"

text \<open>
  The replacement callback of the source: the table first, then a decimal reference, then a
  hexadecimal one, otherwise the token itself. Every value of the table is a non-empty
  string, so \<open>if (decodeMap[entity])\<close> holds exactly for the keys of the table.
\<close>

definition decodeEntity :: "jsstring \<Rightarrow> jsstring" where
  "decodeEntity entity =
     (case map_of decodeMap entity of
        Some v \<Rightarrow> v
      | None \<Rightarrow>
          (case numericMatch entity of
             Some ds \<Rightarrow> [fromCharCode (parseInt ds 10)]
           | None \<Rightarrow>
               (case hexMatch entity of
                  Some hs \<Rightarrow> [fromCharCode (parseInt hs 16)]
                | None \<Rightarrow> entity)))"

text \<open>
  One match of \<open>/&[#\w]+;/\<close> right after an ampersand: the longest run of \<open>#\<close> and word
  characters, which must be non-empty and followed by \<open>;\<close>. (The run is greedy and \<open>;\<close> is
  not in the class, so backtracking finds nothing else.) The result is the run and the text
  after the semicolon.
\<close>

definition isEntityChar :: "cu \<Rightarrow> bool" where
  "isEntityChar c = (c = 0x23 \<or> isWordChar c)"

definition entityToken :: "jsstring \<Rightarrow> (jsstring \<times> jsstring) option" where
  "entityToken cs =
     (case dropWhile isEntityChar cs of
        [] \<Rightarrow> None
      | d # rest \<Rightarrow>
          (if takeWhile isEntityChar cs \<noteq> [] \<and> d = 0x3B
           then Some (takeWhile isEntityChar cs, rest) else None))"

text \<open>
  One pass \<open>decoded.replace(/&[#\w]+;/g, callback)\<close>: scan from the left; every match is
  replaced by the callback's result and the scan goes on after the match.
\<close>

function replaceEntities :: "jsstring \<Rightarrow> jsstring" where
  "replaceEntities [] = []"
| "replaceEntities (c # cs) =
     (if c = 0x26 then
        (case entityToken cs of
           Some (run, rest) \<Rightarrow> decodeEntity (c # run @ [0x3B]) @ replaceEntities rest
         | None \<Rightarrow> c # replaceEntities cs)
      else c # replaceEntities cs)"
  by pat_completeness auto
termination
proof (relation "measure length")
  fix c :: cu and cs x2 x y
  assume "entityToken cs = Some x2" and "(x, y) = x2"
  then have "entityToken cs = Some (x, y)" by simp
  then obtain d where "dropWhile isEntityChar cs = d # y"
    by (auto simp: entityToken_def split: list.splits if_splits)
  then have "length (dropWhile isEntityChar cs) = Suc (length y)" by simp
  moreover have "length (dropWhile isEntityChar cs) \<le> length cs"
    by (rule length_dropWhile_le)
  ultimately show "(y, c # cs) \<in> measure length" by simp
qed auto

text \<open>
  The \<open>while\<close> loop, with \<open>maxIterations\<close> as the recursion argument. The last argument
  counts the passes made; the source has no such counter, it is there to state how many
  passes run.
\<close>

fun decodeLoop :: "nat \<Rightarrow> bool \<Rightarrow> jsstring \<Rightarrow> nat \<Rightarrow> jsstring \<times> nat" where
  "decodeLoop 0 hasEntities decoded passes = (decoded, passes)"
| "decodeLoop (Suc maxIterations) hasEntities decoded passes =
     (if hasEntities then
        (let prevDecoded = decoded;
             decoded' = replaceEntities decoded
         in decodeLoop maxIterations (decoded' \<noteq> prevDecoded \<and> 0x26 \<in> set decoded')
              decoded' (Suc passes))
      else (decoded, passes))"

definition decodeHtmlEntities :: "jsstring \<Rightarrow> jsstring" where
  "decodeHtmlEntities html = fst (decodeLoop 3 (0x26 \<in> set html) html 0)"

definition decodePasses :: "jsstring \<Rightarrow> nat" where
  "decodePasses html = snd (decodeLoop 3 (0x26 \<in> set html) html 0)"

text \<open>
  The character whose code point is \<open>n\<close>, as a JavaScript string (what
  \<open>String.fromCodePoint\<close> returns): one code unit below \<open>0x10000\<close>, a surrogate pair from
  there on. This is the reading of ``the character whose Unicode codepoint is N''; the
  source does not call it.
\<close>

definition fromCodePoint :: "nat \<Rightarrow> jsstring" where
  "fromCodePoint n =
     (if n < 0x10000 then [of_nat n]
      else [of_nat (0xD800 + (n - 0x10000) div 0x400), of_nat (0xDC00 + (n - 0x10000) mod 0x400)])"

section \<open>Text normalizer\<close>

text \<open>
  One match of \<open>numberedListRegex = /^(\s*)(\d+)\.\s/gm\<close> at a position where \<open>^\<close> holds:
  the longest run of white space (group 1), the longest run of digits, which must be
  non-empty, a period and one white-space character. The classes \<open>\s\<close> and \<open>\d\<close> are
  disjoint and the period is in neither, so the greedy runs are the only way to match. The
  result is group 1, the white-space character after the period and the text after the
  match.
\<close>

definition matchNumbered :: "jsstring \<Rightarrow> (jsstring \<times> cu \<times> jsstring) option" where
  "matchNumbered xs =
     (case dropWhile isDigit (dropWhile isSpace xs) of
        d # t # rest \<Rightarrow>
          (if takeWhile isDigit (dropWhile isSpace xs) \<noteq> [] \<and> d = 0x2E \<and> isSpace t
           then Some (takeWhile isSpace xs, t, rest) else None)
      | _ \<Rightarrow> None)"

text \<open>
  \<open>md.replace(numberedListRegex, '$1- ')\<close>: scan from the left; at a line start (the start
  of the text, or just after a line terminator) try the match; a match is replaced by group 1
  and \<open>- \<close> and the scan goes on after it, where \<open>^\<close> holds if the last character of the
  match is a line terminator. \<open>replace\<close> with a global expression starts from index 0.
\<close>

function replaceNumbered :: "bool \<Rightarrow> jsstring \<Rightarrow> jsstring" where
  "replaceNumbered atLineStart [] = []"
| "replaceNumbered atLineStart (c # cs) =
     (if atLineStart then
        (case matchNumbered (c # cs) of
           Some (ws, t, rest) \<Rightarrow> ws @ js ''- '' @ replaceNumbered (isLineTerminator t) rest
         | None \<Rightarrow> c # replaceNumbered (isLineTerminator c) cs)
      else c # replaceNumbered (isLineTerminator c) cs)"
  by pat_completeness auto
termination
proof (relation "measure (\<lambda>(b, xs). length xs)")
  fix atLineStart :: bool and c :: cu and cs x2 x y xa ya
  assume "matchNumbered (c # cs) = Some x2" and "(x, y) = x2" and "(xa, ya) = y"
  then have "matchNumbered (c # cs) = Some (x, xa, ya)" by simp
  then obtain d where "dropWhile isDigit (dropWhile isSpace (c # cs)) = d # xa # ya"
    by (auto simp: matchNumbered_def split: list.splits if_splits)
  then have "length (dropWhile isDigit (dropWhile isSpace (c # cs))) = Suc (Suc (length ya))"
    by simp
  moreover have "length (dropWhile isDigit (dropWhile isSpace (c # cs)))
      \<le> length (dropWhile isSpace (c # cs))"
    by (rule length_dropWhile_le)
  moreover have "length (dropWhile isSpace (c # cs)) \<le> length (c # cs)"
    by (rule length_dropWhile_le)
  ultimately show "((isLineTerminator xa, ya), atLineStart, c # cs)
      \<in> measure (\<lambda>(b, xs). length xs)"
    by simp
qed auto

definition convertNumberedListsToBullets :: "jsstring \<Rightarrow> jsstring" where
  "convertNumberedListsToBullets md = replaceNumbered True md"

text \<open>
  \<open>nonBreakingSpaceMap\<close> and \<open>smartQuoteMap\<close> as the replacement of one code unit; a code
  unit outside the character class of the regular expression is not matched and stays.
\<close>

definition nonBreakingSpaceMap :: "cu \<Rightarrow> jsstring" where
  "nonBreakingSpaceMap c =
     (if c = 0x00A0 then js '' ''
      else if c = 0x2007 then js '' ''
      else if c = 0x202F then js '' ''
      else if c = 0x2060 then []
      else if c = 0xFEFF then []
      else [c])"

definition smartQuoteMap :: "cu \<Rightarrow> jsstring" where
  "smartQuoteMap c =
     (if c = 0x201C then [0x22]
      else if c = 0x201D then [0x22]
      else if c = 0x2018 then [0x27]
      else if c = 0x2019 then [0x27]
      else if c = 0x2013 then js ''-''
      else if c = 0x2014 then js ''-''
      else [c])"

definition normalizeText :: "jsstring \<Rightarrow> jsstring" where
  "normalizeText md = concat (map smartQuoteMap (concat (map nonBreakingSpaceMap md)))"

text \<open>The Text Normalizer: the two steps in the order \<open>convert\<close> applies them.\<close>

definition textNormalizer :: "jsstring \<Rightarrow> jsstring" where
  "textNormalizer md = normalizeText (convertNumberedListsToBullets md)"



text \<open>
  What \<open>normalizeText\<close> makes of a code unit it keeps, and the two code units it deletes.
\<close>

definition normChar :: "cu \<Rightarrow> cu" where
  "normChar c =
     (if c = 0x00A0 \<or> c = 0x2007 \<or> c = 0x202F then 0x20
      else if c = 0x201C \<or> c = 0x201D then 0x22
      else if c = 0x2018 \<or> c = 0x2019 then 0x27
      else if c = 0x2013 \<or> c = 0x2014 then 0x2D
      else c)"

definition zeroWidth :: "cu \<Rightarrow> bool" where
  "zeroWidth c = (c = 0x2060 \<or> c = 0xFEFF)"

text \<open>The suffixes of a text that begin at a line start, where \<open>^\<close> holds.\<close>

fun lineStarts :: "bool \<Rightarrow> jsstring \<Rightarrow> jsstring list" where
  "lineStarts atLineStart [] = []"
| "lineStarts atLineStart (c # cs) =
     (if atLineStart then [c # cs] else []) @ lineStarts (isLineTerminator c) cs"

section \<open>DOM rewriter: \<open>processHtml\<close>\<close>

text \<open>
  \<open>toLowerCase\<close> on the ASCII letters. Code units outside ASCII are left as they are; no
  character lowers to \<open>.\<close>, \<open>d\<close>, \<open>o\<close>, \<open>c\<close> or to a letter of a tag name but the
  corresponding upper-case ASCII letter, which is all the comparisons below depend on.
\<close>

definition toLowerCase :: "jsstring \<Rightarrow> jsstring" where
  "toLowerCase s = map (\<lambda>c. if 0x41 \<le> c \<and> c \<le> 0x5A then c + 0x20 else c) s"

text \<open>\<open>trim\<close> removes white space and line terminators at both ends.\<close>

definition jsTrim :: "jsstring \<Rightarrow> jsstring" where
  "jsTrim s = rev (dropWhile isSpace (rev (dropWhile isSpace s)))"

text \<open>
  The tree the HTML parser returns: text nodes, comments and elements with a tag name, the
  raw attribute text and the child nodes.
\<close>

datatype node =
    TextNode jsstring
  | CommentNode jsstring
  | HTMLElement (rawTagName: jsstring) (rawAttrs: jsstring) (childNodes: "node list")

text \<open>
  The parser library is not part of the repository. Its three operations the rewriter calls
  on strings are parameters of the model: \<open>parse\<close> (also run by the setter of
  \<open>innerHTML\<close>), the serializer (\<open>toString\<close> of the root and the getter of \<open>innerHTML\<close>,
  both on the child nodes) and \<open>textContent\<close>.
\<close>

record htmlLib =
  lib_parse :: "jsstring \<Rightarrow> node list"
  lib_innerHTML :: "node list \<Rightarrow> jsstring"
  lib_textContent :: "node \<Rightarrow> jsstring"

text \<open>A type selector of \<open>querySelector\<close>: elements only, the tag name compared without case.\<close>

fun hasTagName :: "string \<Rightarrow> node \<Rightarrow> bool" where
  "hasTagName t (HTMLElement name attrs cs) = (toLowerCase name = js t)"
| "hasTagName t (TextNode s) = False"
| "hasTagName t (CommentNode s) = False"

text \<open>All nodes below a list of child nodes, in document order.\<close>

fun descendants :: "node list \<Rightarrow> node list" where
  "descendants [] = []"
| "descendants (TextNode s # ns) = TextNode s # descendants ns"
| "descendants (CommentNode s # ns) = CommentNode s # descendants ns"
| "descendants (HTMLElement name attrs cs # ns) =
     HTMLElement name attrs cs # descendants cs @ descendants ns"

text \<open>\<open>element.querySelector(t)\<close> and \<open>element.querySelectorAll(t)\<close>, given the child nodes.\<close>

definition querySelector :: "string \<Rightarrow> node list \<Rightarrow> node option" where
  "querySelector t cs = find (hasTagName t) (descendants cs)"

definition querySelectorAll :: "string \<Rightarrow> node list \<Rightarrow> node list" where
  "querySelectorAll t cs = filter (hasTagName t) (descendants cs)"

text \<open>
  \<open>firstRow.remove()\<close>, where \<open>firstRow\<close> is the first \<open>tr\<close> below the table in document
  order: the child nodes of the table without that element.
\<close>

fun removeFirst :: "string \<Rightarrow> node list \<Rightarrow> node list" where
  "removeFirst t [] = []"
| "removeFirst t (TextNode s # ns) = TextNode s # removeFirst t ns"
| "removeFirst t (CommentNode s # ns) = CommentNode s # removeFirst t ns"
| "removeFirst t (HTMLElement name attrs cs # ns) =
     (if hasTagName t (HTMLElement name attrs cs) then ns
      else if querySelector t cs \<noteq> None then HTMLElement name attrs (removeFirst t cs) # ns
      else HTMLElement name attrs cs # removeFirst t ns)"

text \<open>\<open>cell.tagName = 'th'\<close> for every \<open>td\<close> below a row.\<close>

fun retagCells :: "node list \<Rightarrow> node list" where
  "retagCells [] = []"
| "retagCells (TextNode s # ns) = TextNode s # retagCells ns"
| "retagCells (CommentNode s # ns) = CommentNode s # retagCells ns"
| "retagCells (HTMLElement name attrs cs # ns) =
     HTMLElement (if hasTagName ''td'' (HTMLElement name attrs cs) then js ''th'' else name) attrs
       (retagCells cs) # retagCells ns"

text \<open>The same for the cells of the first \<open>tr\<close> below the table, the rest of the table as it is.\<close>

fun retagFirstRow :: "node list \<Rightarrow> node list" where
  "retagFirstRow [] = []"
| "retagFirstRow (TextNode s # ns) = TextNode s # retagFirstRow ns"
| "retagFirstRow (CommentNode s # ns) = CommentNode s # retagFirstRow ns"
| "retagFirstRow (HTMLElement name attrs cs # ns) =
     (if hasTagName ''tr'' (HTMLElement name attrs cs) then HTMLElement name attrs (retagCells cs) # ns
      else if querySelector ''tr'' cs \<noteq> None then HTMLElement name attrs (retagFirstRow cs) # ns
      else HTMLElement name attrs cs # retagFirstRow ns)"

text \<open>
  The callback of \<open>root.querySelectorAll('table').forEach\<close>, on the child nodes of one table.
  The empty first row is removed before the next row is looked for.
\<close>

definition promoteHeader :: "htmlLib \<Rightarrow> node list \<Rightarrow> node list" where
  "promoteHeader lib table =
     (case querySelector ''tr'' table of
        None \<Rightarrow> table
      | Some firstRow \<Rightarrow>
          (if querySelector ''th'' (childNodes firstRow) \<noteq> None then table
           else
             (let cells = querySelectorAll ''td'' (childNodes firstRow);
                  isEmpty = (length cells = 0
                    \<or> list_all (\<lambda>cell. jsTrim (lib_textContent lib cell) = []) cells)
              in if isEmpty then
                   (let table' = removeFirst ''tr'' table
                    in (case querySelector ''tr'' table' of
                          Some nextRow \<Rightarrow> retagFirstRow table'
                        | None \<Rightarrow> table'))
                 else retagFirstRow table)))"

text \<open>The number of nodes of a forest; the table pass below goes down on it.\<close>

fun nodeCount :: "node list \<Rightarrow> nat" where
  "nodeCount [] = 0"
| "nodeCount (TextNode s # ns) = Suc (nodeCount ns)"
| "nodeCount (CommentNode s # ns) = Suc (nodeCount ns)"
| "nodeCount (HTMLElement name attrs cs # ns) = Suc (nodeCount cs + nodeCount ns)"

text \<open>
  The table pass. \<open>querySelectorAll('table')\<close> lists the tables in document order before any
  of them is changed, so a table is rewritten before the tables below it, which then see
  its changes (a \<open>td\<close> of a nested table retagged with the outer first row, a nested table
  removed with it). A table detached from the tree by then is still visited by the source,
  with no effect on the tree that is serialized.
\<close>

function processTables :: "htmlLib \<Rightarrow> node list \<Rightarrow> node list" where
  "processTables lib [] = []"
| "processTables lib (TextNode s # ns) = TextNode s # processTables lib ns"
| "processTables lib (CommentNode s # ns) = CommentNode s # processTables lib ns"
| "processTables lib (HTMLElement name attrs cs # ns) =
     HTMLElement name attrs
       (processTables lib
          (if hasTagName ''table'' (HTMLElement name attrs cs) then promoteHeader lib cs else cs))
       # processTables lib ns"
  by pat_completeness auto
termination
proof (relation "measure (\<lambda>(lib, ns). nodeCount ns)")
  fix lib :: htmlLib and name attrs :: jsstring and cs ns :: "node list"
  have cells: "nodeCount (retagCells xs) = nodeCount xs" for xs
    by (induction xs rule: retagCells.induct) simp_all
  have row: "nodeCount (retagFirstRow xs) = nodeCount xs" for xs
    by (induction xs rule: retagFirstRow.induct) (simp_all add: cells)
  have removed: "nodeCount (removeFirst t xs) \<le> nodeCount xs" for t xs
    by (induction t xs rule: removeFirst.induct) simp_all
  have "nodeCount (promoteHeader lib cs) \<le> nodeCount cs"
    by (simp add: promoteHeader_def Let_def row removed split: option.splits)
  then show "((lib, if hasTagName ''table'' (HTMLElement name attrs cs) then promoteHeader lib cs else cs),
      lib, HTMLElement name attrs cs # ns) \<in> measure (\<lambda>(lib, ns). nodeCount ns)"
    by simp
qed auto

text \<open>
  \<open>unicodeBullets\<close> and \<open>textContent.replace(bulletRegex, '')\<close>, where \<open>bulletRegex\<close> is
  \<open>^\s*[bullets]\s*\<close>: leading white space, one bullet and the white space after it are
  removed; without a bullet there the string is unchanged.
\<close>

definition unicodeBullets :: "cu list" where
  "unicodeBullets = [0x2022, 0x25E6, 0x25AA, 0x25AB, 0x2023, 0x2043, 0x2219, 0x00B7]"

definition stripBullet :: "jsstring \<Rightarrow> jsstring" where
  "stripBullet s =
     (case dropWhile isSpace s of
        [] \<Rightarrow> s
      | b # r \<Rightarrow> (if b \<in> set unicodeBullets then dropWhile isSpace r else s))"

text \<open>
  The list pass, \<open>root.querySelectorAll('ul li').forEach\<close>. The selector has the descendant
  combinator: it selects every \<open>li\<close> with a \<open>ul\<close> somewhere above it. The flag says
  whether the nodes are below a \<open>ul\<close>. The items are listed in document order before any is
  changed; setting \<open>innerHTML\<close> replaces the children of an item by newly parsed nodes, so
  the items that were below it are no longer in the tree and the new ones are not in the
  list: below a rewritten item nothing else is rewritten.
\<close>

fun processLists :: "htmlLib \<Rightarrow> bool \<Rightarrow> node list \<Rightarrow> node list" where
  "processLists lib inUl [] = []"
| "processLists lib inUl (TextNode s # ns) = TextNode s # processLists lib inUl ns"
| "processLists lib inUl (CommentNode s # ns) = CommentNode s # processLists lib inUl ns"
| "processLists lib inUl (HTMLElement name attrs cs # ns) =
     (if inUl \<and> hasTagName ''li'' (HTMLElement name attrs cs) then
        (let textContent = lib_innerHTML lib cs;
             cleanedContent = stripBullet textContent
         in if cleanedContent \<noteq> textContent
            then HTMLElement name attrs (lib_parse lib cleanedContent) # processLists lib inUl ns
            else HTMLElement name attrs (processLists lib inUl cs) # processLists lib inUl ns)
      else HTMLElement name attrs
             (processLists lib (inUl \<or> hasTagName ''ul'' (HTMLElement name attrs cs)) cs)
           # processLists lib inUl ns)"

text \<open>\<open>processHtml\<close>: one parse, the two passes on the tree, one serialization.\<close>

definition processDom :: "htmlLib \<Rightarrow> node list \<Rightarrow> node list" where
  "processDom lib root = processLists lib False (processTables lib root)"

definition processHtml :: "htmlLib \<Rightarrow> jsstring \<Rightarrow> jsstring" where
  "processHtml lib html = lib_innerHTML lib (processDom lib (lib_parse lib html))"

text \<open>
  The place of a node list in a document: the elements above it, innermost first, each with
  its tag name, its attributes and the siblings to the left and to the right of the place.
  \<open>plug\<close> puts a node list at that place.
\<close>

type_synonym frame = "node list \<times> jsstring \<times> jsstring \<times> node list"

fun plug :: "frame list \<Rightarrow> node list \<Rightarrow> node list" where
  "plug [] ns = ns"
| "plug ((pre, name, attrs, post) # fs) ns = plug fs (pre @ HTMLElement name attrs ns # post)"

text \<open>Whether one of the elements above the place has the tag name.\<close>

definition underTag :: "string \<Rightarrow> frame list \<Rightarrow> bool" where
  "underTag t fs = list_ex (\<lambda>(pre, name, attrs, post). toLowerCase name = js t) fs"

text \<open>An element above the place with the two passes applied to the siblings on both sides.\<close>

definition processFrame :: "htmlLib \<Rightarrow> frame \<Rightarrow> frame" where
  "processFrame lib f =
     (case f of (pre, name, attrs, post) \<Rightarrow> (processDom lib pre, name, attrs, processDom lib post))"

text \<open>
  Stand-ins for the library in the examples below. They agree with the library on the
  inputs used there: the text of an element without entities is the concatenation of its
  text nodes, an element without attributes is serialized as its tag around its children,
  and a string without markup parses to one text node.
\<close>

fun plainText :: "node list \<Rightarrow> jsstring" where
  "plainText [] = []"
| "plainText (TextNode s # ns) = s @ plainText ns"
| "plainText (CommentNode s # ns) = plainText ns"
| "plainText (HTMLElement name attrs cs # ns) = plainText cs @ plainText ns"

fun plainMarkup :: "node list \<Rightarrow> jsstring" where
  "plainMarkup [] = []"
| "plainMarkup (TextNode s # ns) = s @ plainMarkup ns"
| "plainMarkup (CommentNode s # ns) = js ''<!--'' @ s @ js ''-->'' @ plainMarkup ns"
| "plainMarkup (HTMLElement name attrs cs # ns) =
     js ''<'' @ name @ attrs @ js ''>'' @ plainMarkup cs @ js ''</'' @ name @ js ''>''
       @ plainMarkup ns"

definition exampleLib :: htmlLib where
  "exampleLib =
     \<lparr>lib_parse = (\<lambda>s. [TextNode s]),
      lib_innerHTML = plainMarkup,
      lib_textContent = (\<lambda>n. plainText [n])\<rparr>"

section \<open>Markdown renderer adapter: \<open>getTurndownService\<close>, \<open>htmlToMd\<close>\<close>

text \<open>
  An options object: its own enumerable properties in insertion order, with distinct keys.
  The values the source writes are strings; any other value a caller passes is opaque.
\<close>

datatype jsValue = JsString string | JsOther nat

type_synonym jsObject = "(string \<times> jsValue) list"

definition defaultTurndownOptions :: jsObject where
  "defaultTurndownOptions =
     [(''headingStyle'', JsString ''atx''),
      (''codeBlockStyle'', JsString ''fenced''),
      (''bulletListMarker'', JsString ''-'')]"

text \<open>
  The object literal \<open>{...a, ...b}\<close>: the properties of \<open>a\<close>, then those of \<open>b\<close> one after
  another, a key already present getting the new value.
\<close>

definition objectSpread :: "jsObject \<Rightarrow> jsObject \<Rightarrow> jsObject" where
  "objectSpread a b = fold (\<lambda>(k, v) obj. AList.update k v obj) b a"

text \<open>
  A \<open>TurndownService\<close> object: the options object its constructor was given and the plugins
  added with \<open>use\<close>. Objects have identity; \<open>instanceId\<close> is the number of services
  constructed before this one.
\<close>

record service =
  instanceId :: nat
  serviceOptions :: jsObject
  plugins :: "string list"

text \<open>
  The module state: the variable \<open>turndownServiceInstance\<close> (\<open>null\<close> is \<open>None\<close>) and the
  number of \<open>TurndownService\<close> objects constructed so far.
\<close>

record rendererState =
  turndownServiceInstance :: "service option"
  constructed :: nat

definition initialState :: rendererState where
  "initialState = \<lparr>turndownServiceInstance = None, constructed = 0\<rparr>"

definition newTurndownService :: "jsObject \<Rightarrow> rendererState \<Rightarrow> service \<times> rendererState" where
  "newTurndownService options st =
     (\<lparr>instanceId = constructed st, serviceOptions = options, plugins = []\<rparr>,
      st\<lparr>constructed := Suc (constructed st)\<rparr>)"

definition use :: "service \<Rightarrow> string \<Rightarrow> service" where
  "use svc plugin = svc\<lparr>plugins := plugins svc @ [plugin]\<rparr>"

definition getTurndownService :: "jsObject \<Rightarrow> rendererState \<Rightarrow> service \<times> rendererState" where
  "getTurndownService options st =
     (if length (map fst options) > 0 then
        (let (svc, st') = newTurndownService (objectSpread options defaultTurndownOptions) st
         in (use svc ''gfm'', st'))
      else
        (case turndownServiceInstance st of
           None \<Rightarrow>
             (let (svc, st') = newTurndownService defaultTurndownOptions st;
                  svc' = use svc ''gfm''
              in (svc', st'\<lparr>turndownServiceInstance := Some svc'\<rparr>))
         | Some svc \<Rightarrow> (svc, st)))"

text \<open>
  \<open>htmlToMd\<close>. The conversion engine, \<open>turndownService.turndown\<close>, is not part of the
  repository; it is a parameter.
\<close>

definition htmlToMd ::
  "(service \<Rightarrow> jsstring \<Rightarrow> jsstring) \<Rightarrow> jsstring \<Rightarrow> jsObject \<Rightarrow> rendererState
     \<Rightarrow> jsstring \<times> rendererState" where
  "htmlToMd turndown html options st =
     (let decodedHtml = decodeHtmlEntities html;
          (turndownService, st') = getTurndownService options st
      in (jsTrim (turndown turndownService decodedHtml), st'))"

text \<open>Calls of \<open>getTurndownService\<close> one after another, on the state the last one left.\<close>

fun getTurndownServices :: "jsObject list \<Rightarrow> rendererState \<Rightarrow> service list \<times> rendererState" where
  "getTurndownServices [] st = ([], st)"
| "getTurndownServices (options # rest) st =
     (let (svc, st1) = getTurndownService options st;
          (svcs, st2) = getTurndownServices rest st1
      in (svc # svcs, st2))"

section \<open>Pipeline orchestrator: \<open>validateFileExtension\<close>, \<open>lint\<close>, \<open>convert\<close>\<close>

text \<open>
  \<open>path.extname\<close> of Node.js on POSIX paths, after its documentation: the extension of the
  last portion of the path (trailing slashes ignored), from its last period to its end; the
  empty string if that portion has no period, if its only period is its first character, or
  if it is \<open>..\<close>. Node.js is not part of the repository.
\<close>

definition basename :: "jsstring \<Rightarrow> jsstring" where
  "basename p = rev (takeWhile (\<lambda>c. c \<noteq> 0x2F) (dropWhile (\<lambda>c. c = 0x2F) (rev p)))"

definition afterLastDot :: "jsstring \<Rightarrow> jsstring" where
  "afterLastDot s = rev (takeWhile (\<lambda>c. c \<noteq> 0x2E) (rev s))"

definition posixExtname :: "jsstring \<Rightarrow> jsstring" where
  "posixExtname p =
     (let base = basename p in
      if 0x2E \<notin> set base then []
      else if length base = Suc (length (afterLastDot base)) then []
      else if base = [0x2E, 0x2E] then []
      else 0x2E # afterLastDot base)"

datatype error = UnsupportedFileError jsstring | ExtractionFailure jsstring

definition unsupportedMessage :: jsstring where
  "unsupportedMessage = js (''This tool only supports .docx files, not .doc files. ''
     @ ''Please save your document as a .docx file and try again.'')"

text \<open>
  \<open>validateFileExtension\<close>. The first argument is \<open>path.extname\<close> where the \<open>path\<close> module
  is there (Node.js), \<open>None\<close> where it is not (the browser), in which case the source takes
  the text from the last period of the lower-cased name.
\<close>

definition validateFileExtension :: "(jsstring \<Rightarrow> jsstring) option \<Rightarrow> jsstring \<Rightarrow> error + unit" where
  "validateFileExtension pathExtname filePath =
     (let ext =
        (case pathExtname of
           Some extname \<Rightarrow> toLowerCase (extname filePath)
         | None \<Rightarrow>
             (let filename = toLowerCase filePath
              in if 0x2E \<in> set filename then 0x2E # afterLastDot filename else []))
      in if ext = js ''.doc'' then Inl (UnsupportedFileError unsupportedMessage) else Inr ())"

text \<open>The two kinds of input of \<open>convert\<close> and its options.\<close>

datatype docInput = Path jsstring | ArrayBuffer "8 word list"

record convertOptions =
  opt_mammoth :: "jsObject option"
  opt_turndown :: "jsObject option"

text \<open>
  What \<open>convert\<close> calls outside the repository: \<open>path.extname\<close> if there is one, the
  extraction \<open>mammoth.convertToHtml\<close>, which may fail with a message, the HTML parser, the
  conversion engine and \<open>applyFixes\<close> on the result of the linter.
\<close>

record externals =
  path_extname :: "(jsstring \<Rightarrow> jsstring) option"
  mammoth_convertToHtml :: "docInput \<Rightarrow> jsObject option \<Rightarrow> jsstring + jsstring"
  html_lib :: htmlLib
  turndown_engine :: "service \<Rightarrow> jsstring \<Rightarrow> jsstring"
  markdownlint_fix :: "jsstring \<Rightarrow> jsstring"

definition lint :: "externals \<Rightarrow> jsstring \<Rightarrow> jsstring" where
  "lint env md = jsTrim (markdownlint_fix env md)"

text \<open>
  \<open>convert\<close>. The result is the list of extraction calls made, the Markdown or the error
  thrown, and the module state. Only a path is validated; the extraction is called after
  the validation has returned.
\<close>

datatype event = MammothConvertToHtml docInput

definition convert ::
  "externals \<Rightarrow> docInput \<Rightarrow> convertOptions \<Rightarrow> rendererState
     \<Rightarrow> event list \<times> (error + jsstring) \<times> rendererState" where
  "convert env input options st =
     (case (case input of
              Path filePath \<Rightarrow> validateFileExtension (path_extname env) filePath
            | ArrayBuffer bytes \<Rightarrow> Inr ()) of
        Inl e \<Rightarrow> ([], Inl e, st)
      | Inr u \<Rightarrow>
          (case mammoth_convertToHtml env input (opt_mammoth options) of
             Inl message \<Rightarrow> ([MammothConvertToHtml input], Inl (ExtractionFailure message), st)
           | Inr html \<Rightarrow>
               (let processedHtml = processHtml (html_lib env) html;
                    (md, st') = htmlToMd (turndown_engine env) processedHtml
                                  (case opt_turndown options of None \<Rightarrow> [] | Some opts \<Rightarrow> opts) st;
                    mdWithBullets = convertNumberedListsToBullets md;
                    normalizedMd = normalizeText mdWithBullets;
                    cleanedMd = lint env normalizedMd
                in ([MammothConvertToHtml input], Inr cleanedMd, st'))))"

text \<open>
  A stand-in for the environment of the examples: Node.js, an extraction that fails on the
  file, and the other engines as the identity.
\<close>

definition exampleEnv :: externals where
  "exampleEnv =
     \<lparr>path_extname = Some posixExtname,
      mammoth_convertToHtml = (\<lambda>input opts. Inl (js ''Could not find file in options'')),
      html_lib = exampleLib,
      turndown_engine = (\<lambda>svc html. html),
      markdownlint_fix = (\<lambda>md. md)\<rparr>"

text \<open>Whether \<open>convert\<close> threw the error for an unsupported format.\<close>

fun isUnsupportedFileError :: "error + jsstring \<Rightarrow> bool" where
  "isUnsupportedFileError (Inl (UnsupportedFileError message)) = True"
| "isUnsupportedFileError (Inl (ExtractionFailure message)) = False"
| "isUnsupportedFileError (Inr md) = False"

definition noOptions :: convertOptions where
  "noOptions = \<lparr>opt_mammoth = None, opt_turndown = None\<rparr>"

section \<open>Properties of the entity decoder\<close>

lemmas char_class_defs =
  isDigit_def isWordChar_def isEntityChar_def isHexDigit_def isSpace_def isLineTerminator_def

lemma replaceEntities_amp2: "replaceEntities (js ''&amp;amp;'') = js ''&amp;''"
  by (simp add: js_def entityToken_def decodeEntity_def decodeMap_def char_class_defs)

lemma replaceEntities_amp1: "replaceEntities (js ''&amp;'') = js ''&''"
  by (simp add: js_def entityToken_def decodeEntity_def decodeMap_def char_class_defs)



lemma decodeLoop_unfold:
  "decodeLoop 3 h0 html 0 =
     (if h0 then
        (let r1 = replaceEntities html in
         if r1 \<noteq> html \<and> 0x26 \<in> set r1 then
           (let r2 = replaceEntities r1 in
            if r2 \<noteq> r1 \<and> 0x26 \<in> set r2 then (replaceEntities r2, 3) else (r2, 2))
         else (r1, 1))
      else (html, 0))"
  by (simp add: numeral_3_eq_3 Let_def)

lemma decodePasses_le: "decodePasses html \<le> 3"
  by (simp add: decodePasses_def decodeLoop_unfold Let_def)

lemma decodePasses_result:
  "decodeHtmlEntities html = (replaceEntities ^^ decodePasses html) html"
  by (simp add: decodePasses_def decodeHtmlEntities_def decodeLoop_unfold Let_def
      numeral_2_eq_2 numeral_3_eq_3)

lemma decodePasses_no_amp:
  "0x26 \<notin> set html \<Longrightarrow> decodePasses html = 0 \<and> decodeHtmlEntities html = html"
  by (simp add: decodePasses_def decodeHtmlEntities_def decodeLoop_unfold)

lemma decodePasses_changed:
  assumes "Suc j < decodePasses html"
  shows "(replaceEntities ^^ Suc j) html \<noteq> (replaceEntities ^^ j) html"
proof -
  from assms decodePasses_le [of html] have "j = 0 \<or> j = 1" by arith
  then show ?thesis
  proof
    assume "j = 0"
    with assms show ?thesis
      by (auto simp: decodePasses_def decodeLoop_unfold Let_def split: if_splits)
  next
    assume "j = 1"
    with assms show ?thesis
      by (auto simp: decodePasses_def decodeLoop_unfold Let_def split: if_splits)
  qed
qed



text \<open>
  C7: the loop makes at most three passes; a pass is followed by another one only if it
  changed the string (so the loop stops as soon as a pass changes nothing); on an input
  without an ampersand no pass runs and the input is returned as it is. The result is the
  pass applied \<open>decodePasses\<close> times.
\<close>

theorem decode_loop_bounded:
  "decodePasses html \<le> 3
   \<and> (\<forall>j. Suc j < decodePasses html \<longrightarrow>
          (replaceEntities ^^ Suc j) html \<noteq> (replaceEntities ^^ j) html)
   \<and> (0x26 \<notin> set html \<longrightarrow> decodePasses html = 0 \<and> decodeHtmlEntities html = html)
   \<and> decodeHtmlEntities html = (replaceEntities ^^ decodePasses html) html"
  using decodePasses_le decodePasses_changed decodePasses_no_amp decodePasses_result
  by blast

lemma decodePasses_amp2: "decodePasses (js ''&amp;amp;'') = 3"
proof -
  have a: "(0x26::cu) \<in> set (js ''&amp;amp;'')" "(0x26::cu) \<in> set (js ''&amp;'')"
    "(0x26::cu) \<in> set (js ''&'')"
    by (simp_all add: js_def)
  have n: "js ''&amp;'' \<noteq> js ''&amp;amp;''" "js ''&'' \<noteq> js ''&amp;''"
    by (simp_all add: js_def)
  show ?thesis
    by (simp add: decodePasses_def decodeLoop_unfold Let_def a n
        replaceEntities_amp2 replaceEntities_amp1)
qed

theorem decode_loop_bounded_witness:
  "decodePasses (js ''&amp;amp;'') = 3
   \<and> replaceEntities (js ''&amp;amp;'') \<noteq> js ''&amp;amp;''
   \<and> 0x26 \<notin> set (js ''abc'')
   \<and> decodePasses (js ''abc'') = 0 \<and> decodeHtmlEntities (js ''abc'') = js ''abc''"
proof -
  have na: "(0x26::cu) \<notin> set (js ''abc'')" by (simp add: js_def)
  have "Suc 0 < decodePasses (js ''&amp;amp;'')" by (simp add: decodePasses_amp2)
  with decode_loop_bounded [of "js ''&amp;amp;''"]
  have "(replaceEntities ^^ Suc 0) (js ''&amp;amp;'') \<noteq> (replaceEntities ^^ 0) (js ''&amp;amp;'')"
    by blast
  then have "replaceEntities (js ''&amp;amp;'') \<noteq> js ''&amp;amp;''" by simp
  moreover from decode_loop_bounded [of "js ''abc''"] na
  have "decodePasses (js ''abc'') = 0 \<and> decodeHtmlEntities (js ''abc'') = js ''abc''"
    by blast
  ultimately show ?thesis using na decodePasses_amp2 by simp
qed

subsection \<open>Numeric references above the Basic Multilingual Plane\<close>

lemma replaceEntities_emoji_dec: "replaceEntities (js ''&#128512;'') = [0xF600]"
  by (simp add: js_def entityToken_def decodeEntity_def decodeMap_def char_class_defs
      numericMatch_def parseInt_def digitValue_def fromCharCode_def toNumber_def)

lemma replaceEntities_emoji_hex: "replaceEntities (js ''&#x1F600;'') = [0xF600]"
  by (simp add: js_def entityToken_def decodeEntity_def decodeMap_def char_class_defs
      numericMatch_def hexMatch_def parseInt_def digitValue_def fromCharCode_def toNumber_def)

text \<open>
  C5 at the code point U+1F600 (decimal 128512): the decoder returns the single code unit
  \<open>0xF600\<close>, which is 128512 modulo \<open>2^16\<close>, for the decimal and for the hexadecimal
  reference; the character with that code point is the surrogate pair \<open>D83D DE00\<close>.
\<close>

theorem decode_numeric_astral:
  "decodeHtmlEntities (js ''&#128512;'') = [0xF600]
   \<and> decodeHtmlEntities (js ''&#x1F600;'') = [0xF600]
   \<and> fromCodePoint 128512 = [0xD83D, 0xDE00]
   \<and> decodeHtmlEntities (js ''&#128512;'') \<noteq> fromCodePoint 128512"
proof -
  have a: "(0x26::cu) \<in> set (js ''&#128512;'')" "(0x26::cu) \<in> set (js ''&#x1F600;'')"
    by (simp_all add: js_def)
  have n: "[0xF600::cu] \<noteq> js ''&#128512;''" "[0xF600::cu] \<noteq> js ''&#x1F600;''"
    by (simp_all add: js_def)
  have d: "decodeHtmlEntities (js ''&#128512;'') = [0xF600]"
    by (simp add: decodeHtmlEntities_def decodeLoop_unfold Let_def a n replaceEntities_emoji_dec)
  have h: "decodeHtmlEntities (js ''&#x1F600;'') = [0xF600]"
    by (simp add: decodeHtmlEntities_def decodeLoop_unfold Let_def a n replaceEntities_emoji_hex)
  have f: "fromCodePoint 128512 = [0xD83D, 0xDE00]"
    by (simp add: fromCodePoint_def)
  show ?thesis by (simp add: d h f)
qed

section \<open>Properties of the text normalizer\<close>

lemma digit_not_space: "isDigit c \<Longrightarrow> \<not> isSpace c"
  by (auto simp: char_class_defs word_le_nat_alt)

lemma matchNumbered_SomeD:
  assumes "matchNumbered xs = Some (ws, t, rest)"
  shows "\<exists>ds. xs = ws @ ds @ 0x2E # t # rest \<and> list_all isSpace ws \<and> ds \<noteq> []
            \<and> list_all isDigit ds \<and> isSpace t"
proof -
  let ?r1 = "dropWhile isSpace xs"
  let ?ds = "takeWhile isDigit ?r1"
  from assms have r2: "dropWhile isDigit ?r1 = 0x2E # t # rest"
    and ne: "?ds \<noteq> []" and t: "isSpace t" and ws: "ws = takeWhile isSpace xs"
    by (auto simp: matchNumbered_def split: list.splits if_splits)
  have "xs = takeWhile isSpace xs @ ?r1" by simp
  also have "?r1 = ?ds @ dropWhile isDigit ?r1" by simp
  finally have "xs = ws @ ?ds @ 0x2E # t # rest" using r2 ws by simp
  moreover have "list_all isSpace ws" unfolding ws list_all_iff by (auto dest: set_takeWhileD)
  moreover have "list_all isDigit ?ds" unfolding list_all_iff by (auto dest: set_takeWhileD)
  ultimately show ?thesis using ne t by blast
qed

lemma matchNumbered_SomeI:
  assumes "list_all isSpace ws" "ds \<noteq> []" "list_all isDigit ds" "isSpace t"
  shows "matchNumbered (ws @ ds @ 0x2E # t # rest) = Some (ws, t, rest)"
proof -
  from assms obtain d ds' where ds: "ds = d # ds'" and d: "isDigit d"
    by (cases ds) auto
  have nd: "\<not> isSpace d" using d by (rule digit_not_space)
  have dot: "\<not> isDigit 0x2E" by (simp add: char_class_defs)
  have tw: "takeWhile isSpace (ws @ ds @ 0x2E # t # rest) = ws"
    using assms(1) nd by (simp add: ds list_all_iff)
  have dw: "dropWhile isSpace (ws @ ds @ 0x2E # t # rest) = ds @ 0x2E # t # rest"
    using assms(1) nd by (simp add: ds list_all_iff)
  have tw2: "takeWhile isDigit (ds @ 0x2E # t # rest) = ds"
    using assms(3) dot by (simp add: list_all_iff)
  have dw2: "dropWhile isDigit (ds @ 0x2E # t # rest) = 0x2E # t # rest"
    using assms(3) dot by (simp add: list_all_iff)
  show ?thesis
    unfolding matchNumbered_def tw dw tw2 dw2 using assms(2,4) by simp
qed

lemma matchNumbered_iff:
  "matchNumbered xs = Some (ws, t, rest) \<longleftrightarrow>
     (\<exists>ds. xs = ws @ ds @ 0x2E # t # rest \<and> list_all isSpace ws \<and> ds \<noteq> []
          \<and> list_all isDigit ds \<and> isSpace t)"
  using matchNumbered_SomeD matchNumbered_SomeI by blast

text \<open>A match contains no hyphen.\<close>

lemma hyphen_classes: "\<not> isSpace 0x2D" "\<not> isDigit 0x2D" "(0x2D::cu) \<noteq> 0x2E"
  by (simp_all add: char_class_defs)

lemma prefix_before_hyphen:
  "pre @ 0x2D # r = m @ rest \<Longrightarrow> (0x2D::cu) \<notin> set m \<Longrightarrow> \<exists>p2. pre = m @ p2"
proof (induction m arbitrary: pre)
  case Nil
  show ?case by simp
next
  case (Cons x m)
  show ?case
  proof (cases pre)
    assume "pre = []"
    with Cons.prems show ?thesis by simp
  next
    fix p pre'
    assume pre: "pre = p # pre'"
    with Cons.prems have px: "p = x" and eq: "pre' @ 0x2D # r = m @ rest" and nin: "(0x2D::cu) \<notin> set m"
      by simp_all
    from Cons.IH [OF eq nin] obtain p2 where "pre' = m @ p2" by blast
    with pre px show ?thesis by simp
  qed
qed

lemma matchNumbered_prefix:
  assumes "matchNumbered (pre @ 0x2D # r) = Some (ws, t, rest)"
  shows "\<exists>rest'. matchNumbered (pre @ r') = Some (ws, t, rest')"
proof -
  from matchNumbered_SomeD [OF assms] obtain ds where
    eq: "pre @ 0x2D # r = ws @ ds @ 0x2E # t # rest" and ws: "list_all isSpace ws"
    and ne: "ds \<noteq> []" and ds: "list_all isDigit ds" and t: "isSpace t"
    by blast
  let ?m = "ws @ ds @ [0x2E, t]"
  have "(0x2D::cu) \<notin> set ?m"
    using ws ds t hyphen_classes by (auto simp: list_all_iff)
  moreover have "pre @ 0x2D # r = ?m @ rest" using eq by simp
  ultimately obtain p2 where "pre = ?m @ p2"
    using prefix_before_hyphen by blast
  then have "pre @ r' = ws @ ds @ 0x2E # t # (p2 @ r')" by simp
  with matchNumbered_SomeI [OF ws ne ds t, of "p2 @ r'"]
  have "matchNumbered (pre @ r') = Some (ws, t, p2 @ r')" by simp
  then show ?thesis by blast
qed

lemma replaceNumbered_shape:
  "replaceNumbered b xs = xs \<or>
   (\<exists>pre r r'. xs = pre @ r' \<and> replaceNumbered b xs = pre @ 0x2D # r)"
proof (induction b xs rule: replaceNumbered.induct)
  case (1 atLineStart)
  then show ?case by simp
next
  case (2 atLineStart c cs)
  show ?case
  proof (cases "atLineStart \<and> matchNumbered (c # cs) \<noteq> None")
    case True
    then obtain ws t rest where m: "matchNumbered (c # cs) = Some (ws, t, rest)"
      by auto
    from matchNumbered_SomeD [OF m] obtain ds where "c # cs = ws @ ds @ 0x2E # t # rest"
      by blast
    moreover have "replaceNumbered atLineStart (c # cs) =
        ws @ 0x2D # (0x20 # replaceNumbered (isLineTerminator t) rest)"
      using True m by (simp add: js_def)
    ultimately show ?thesis by blast
  next
    case False
    then have out: "replaceNumbered atLineStart (c # cs) = c # replaceNumbered (isLineTerminator c) cs"
      by (auto split: option.splits)
    have "replaceNumbered (isLineTerminator c) cs = cs \<or>
      (\<exists>pre r r'. cs = pre @ r' \<and> replaceNumbered (isLineTerminator c) cs = pre @ 0x2D # r)"
    proof (cases atLineStart)
      case True
      with False have "matchNumbered (c # cs) = None" by (cases "matchNumbered (c # cs)") auto
      with True show ?thesis by (rule "2.IH"(1))
    next
      case False
      then show ?thesis by (rule "2.IH"(3))
    qed
    then show ?thesis
    proof
      assume "replaceNumbered (isLineTerminator c) cs = cs"
      with out show ?thesis by simp
    next
      assume "\<exists>pre r r'. cs = pre @ r' \<and> replaceNumbered (isLineTerminator c) cs = pre @ 0x2D # r"
      then obtain pre r r' where "cs = pre @ r'" "replaceNumbered (isLineTerminator c) cs = pre @ 0x2D # r"
        by blast
      with out have "c # cs = (c # pre) @ r' \<and> replaceNumbered atLineStart (c # cs) = (c # pre) @ 0x2D # r"
        by simp
      then show ?thesis by blast
    qed
  qed
qed

lemma matchNumbered_None_replaced:
  assumes "matchNumbered (c # cs) = None"
  shows "matchNumbered (c # replaceNumbered b cs) = None"
proof (rule ccontr)
  assume "matchNumbered (c # replaceNumbered b cs) \<noteq> None"
  then obtain ws t rest where m: "matchNumbered (c # replaceNumbered b cs) = Some (ws, t, rest)"
    by auto
  from replaceNumbered_shape [of b cs] show False
  proof
    assume "replaceNumbered b cs = cs"
    with m assms show False by simp
  next
    assume "\<exists>pre r r'. cs = pre @ r' \<and> replaceNumbered b cs = pre @ 0x2D # r"
    then obtain pre r r' where cs: "cs = pre @ r'" and out: "replaceNumbered b cs = pre @ 0x2D # r"
      by blast
    from m out have "matchNumbered ((c # pre) @ 0x2D # r) = Some (ws, t, rest)" by simp
    from matchNumbered_prefix [OF this, of r'] cs assms show False by simp
  qed
qed

lemma matchNumbered_spaces_hyphen:
  "list_all isSpace ws \<Longrightarrow> matchNumbered (ws @ 0x2D # r) = None"
proof -
  assume ws: "list_all isSpace ws"
  have "dropWhile isSpace (ws @ 0x2D # r) = 0x2D # r"
    using ws hyphen_classes by (simp add: list_all_iff)
  then show ?thesis
    using hyphen_classes by (simp add: matchNumbered_def split: list.splits)
qed

lemma replaceNumbered_spaces_hyphen:
  "list_all isSpace ws \<Longrightarrow>
   replaceNumbered b (ws @ js ''- '' @ r) = ws @ js ''- '' @ replaceNumbered False r"
proof (induction ws arbitrary: b)
  case Nil
  have "matchNumbered (0x2D # 0x20 # r) = None"
    using matchNumbered_spaces_hyphen [of "[]"] by simp
  then show ?case by (simp add: js_def isLineTerminator_def)
next
  case (Cons w ws)
  then have "list_all isSpace (w # ws)" by simp
  from matchNumbered_spaces_hyphen [OF this] have "matchNumbered (w # ws @ 0x2D # 0x20 # r) = None"
    by simp
  with Cons show ?case by (simp add: js_def)
qed

lemma replaceNumbered_idem:
  "(b' \<longrightarrow> b) \<Longrightarrow> replaceNumbered b' (replaceNumbered b xs) = replaceNumbered b xs"
proof (induction b xs arbitrary: b' rule: replaceNumbered.induct)
  case (1 atLineStart)
  then show ?case by simp
next
  case (2 atLineStart c cs)
  show ?case
  proof (cases "atLineStart \<and> matchNumbered (c # cs) \<noteq> None")
    case True
    then obtain ws t rest where m: "matchNumbered (c # cs) = Some (ws, t, rest)"
      by auto
    from matchNumbered_SomeD [OF m] have ws: "list_all isSpace ws" by blast
    have out: "replaceNumbered atLineStart (c # cs) =
        ws @ js ''- '' @ replaceNumbered (isLineTerminator t) rest"
      using True m by simp
    have "replaceNumbered False (replaceNumbered (isLineTerminator t) rest)
        = replaceNumbered (isLineTerminator t) rest"
      using "2.IH"(2) [of "(ws, t, rest)" ws "(t, rest)" t rest False] True m by simp
    then show ?thesis
      unfolding out by (simp add: replaceNumbered_spaces_hyphen [OF ws])
  next
    case False
    then have out: "replaceNumbered atLineStart (c # cs) = c # replaceNumbered (isLineTerminator c) cs"
      by (auto split: option.splits)
    have ih: "replaceNumbered (isLineTerminator c) (replaceNumbered (isLineTerminator c) cs)
        = replaceNumbered (isLineTerminator c) cs"
    proof (cases atLineStart)
      case True
      with False have "matchNumbered (c # cs) = None" by (cases "matchNumbered (c # cs)") auto
      with True show ?thesis by (rule "2.IH"(1)) simp
    next
      case False
      then show ?thesis by (rule "2.IH"(3)) simp
    qed
    show ?thesis
    proof (cases b')
      case True
      with "2.prems" False have "matchNumbered (c # cs) = None"
        by (cases "matchNumbered (c # cs)") auto
      from matchNumbered_None_replaced [OF this]
      have "matchNumbered (c # replaceNumbered (isLineTerminator c) cs) = None" .
      then show ?thesis unfolding out using ih by simp
    next
      case False
      then show ?thesis unfolding out using ih by simp
    qed
  qed
qed


lemma normalize_char:
  "concat (map smartQuoteMap (nonBreakingSpaceMap c)) = (if zeroWidth c then [] else [normChar c])"
  by (simp add: smartQuoteMap_def nonBreakingSpaceMap_def normChar_def zeroWidth_def js_def)

lemma normalizeText_filter_map:
  "normalizeText s = map normChar (filter (\<lambda>c. \<not> zeroWidth c) s)"
proof (induction s)
  case Nil
  show ?case by (simp add: normalizeText_def)
next
  case (Cons c s)
  have "normalizeText (c # s) = concat (map smartQuoteMap (nonBreakingSpaceMap c)) @ normalizeText s"
    by (simp add: normalizeText_def)
  with Cons show ?case by (simp add: normalize_char)
qed

lemma normChar_idem: "normChar (normChar c) = normChar c"
  by (simp add: normChar_def)

lemma normChar_zeroWidth: "zeroWidth (normChar c) = zeroWidth c"
  by (simp add: normChar_def zeroWidth_def)

lemma normChar_isSpace: "isSpace (normChar c) = isSpace c"
  by (simp add: normChar_def char_class_defs)

lemma normChar_isDigit: "isDigit (normChar c) = isDigit c"
  by (simp add: normChar_def char_class_defs)

lemma normChar_isLineTerminator: "isLineTerminator (normChar c) = isLineTerminator c"
  by (simp add: normChar_def char_class_defs)

lemma normChar_dot: "(normChar c = 0x2E) = (c = 0x2E)"
  by (simp add: normChar_def)

lemma normalizeText_idem: "normalizeText (normalizeText s) = normalizeText s"
proof -
  have "filter (\<lambda>c. \<not> zeroWidth c) (map normChar (filter (\<lambda>c. \<not> zeroWidth c) s))
      = map normChar (filter (\<lambda>c. \<not> zeroWidth c) s)"
    by (simp add: filter_map comp_def normChar_zeroWidth)
  then show ?thesis
    by (simp add: normalizeText_filter_map normChar_idem)
qed

lemma matchNumbered_map:
  "matchNumbered (map normChar xs) =
     map_option (\<lambda>(ws, t, rest). (map normChar ws, normChar t, map normChar rest)) (matchNumbered xs)"
proof -
  have sp: "isSpace \<circ> normChar = isSpace" by (rule ext) (simp add: normChar_isSpace)
  have dg: "isDigit \<circ> normChar = isDigit" by (rule ext) (simp add: normChar_isDigit)
  let ?r1 = "dropWhile isSpace xs"
  let ?r2 = "dropWhile isDigit ?r1"
  have a: "takeWhile isSpace (map normChar xs) = map normChar (takeWhile isSpace xs)"
    by (simp add: takeWhile_map sp)
  have b: "dropWhile isSpace (map normChar xs) = map normChar ?r1"
    by (simp add: dropWhile_map sp)
  have c: "takeWhile isDigit (map normChar ?r1) = map normChar (takeWhile isDigit ?r1)"
    by (simp add: takeWhile_map dg)
  have d: "dropWhile isDigit (map normChar ?r1) = map normChar ?r2"
    by (simp add: dropWhile_map dg)
  have l: "matchNumbered (map normChar xs) =
     (case map normChar ?r2 of
        d # t # rest \<Rightarrow>
          (if map normChar (takeWhile isDigit ?r1) \<noteq> [] \<and> d = 0x2E \<and> isSpace t
           then Some (map normChar (takeWhile isSpace xs), t, rest) else None)
      | _ \<Rightarrow> None)"
    unfolding matchNumbered_def a b c d ..
  have r: "matchNumbered xs =
     (case ?r2 of
        d # t # rest \<Rightarrow>
          (if takeWhile isDigit ?r1 \<noteq> [] \<and> d = 0x2E \<and> isSpace t
           then Some (takeWhile isSpace xs, t, rest) else None)
      | _ \<Rightarrow> None)"
    unfolding matchNumbered_def ..
  show ?thesis
  proof (cases ?r2)
    case Nil
    show ?thesis unfolding l r Nil by simp
  next
    case outer: (Cons d r3)
    show ?thesis
    proof (cases r3)
      case Nil
      show ?thesis unfolding l r outer Nil by simp
    next
      case (Cons t rest)
      show ?thesis
        unfolding l r outer Cons by (simp add: normChar_dot normChar_isSpace)
    qed
  qed
qed

lemma replaceNumbered_map:
  "replaceNumbered b (map normChar xs) = map normChar (replaceNumbered b xs)"
proof (induction b xs rule: replaceNumbered.induct)
  case (1 atLineStart)
  show ?case by simp
next
  case (2 atLineStart c cs)
  have hy: "map normChar (js ''- '') = js ''- ''" by (simp add: js_def normChar_def)
  show ?case
  proof (cases atLineStart)
    case False
    with "2.IH"(3) show ?thesis by (simp add: normChar_isLineTerminator)
  next
    case True
    show ?thesis
    proof (cases "matchNumbered (c # cs)")
      case None
      then have "matchNumbered (normChar c # map normChar cs) = None"
        using matchNumbered_map [of "c # cs"] by simp
      with True None "2.IH"(1) show ?thesis by (simp add: normChar_isLineTerminator)
    next
      case (Some x)
      then obtain ws t rest where m: "matchNumbered (c # cs) = Some (ws, t, rest)"
        by (cases x) auto
      then have m': "matchNumbered (normChar c # map normChar cs)
          = Some (map normChar ws, normChar t, map normChar rest)"
        using matchNumbered_map [of "c # cs"] by simp
      have "replaceNumbered (isLineTerminator t) (map normChar rest)
          = map normChar (replaceNumbered (isLineTerminator t) rest)"
        using "2.IH"(2) [of "(ws, t, rest)" ws "(t, rest)" t rest] True m by simp
      with True m m' show ?thesis by (simp add: normChar_isLineTerminator hy)
    qed
  qed
qed

lemma replaceNumbered_no_zeroWidth:
  "list_all (\<lambda>c. \<not> zeroWidth c) xs \<Longrightarrow> list_all (\<lambda>c. \<not> zeroWidth c) (replaceNumbered b xs)"
proof (induction b xs rule: replaceNumbered.induct)
  case (1 atLineStart)
  show ?case by simp
next
  case (2 atLineStart c cs)
  show ?case
  proof (cases "atLineStart \<and> matchNumbered (c # cs) \<noteq> None")
    case True
    then obtain ws t rest where m: "matchNumbered (c # cs) = Some (ws, t, rest)"
      by auto
    from matchNumbered_SomeD [OF m] obtain ds where eq: "c # cs = ws @ ds @ 0x2E # t # rest"
      by blast
    from "2.prems" have "list_all (\<lambda>c. \<not> zeroWidth c) (ws @ ds @ 0x2E # t # rest)"
      unfolding eq [symmetric] .
    then have w: "list_all (\<lambda>c. \<not> zeroWidth c) ws" and r: "list_all (\<lambda>c. \<not> zeroWidth c) rest"
      by simp_all
    have "list_all (\<lambda>c. \<not> zeroWidth c) (replaceNumbered (isLineTerminator t) rest)"
      using "2.IH"(2) [of "(ws, t, rest)" ws "(t, rest)" t rest] True m r by simp
    with w True m show ?thesis by (simp add: js_def zeroWidth_def)
  next
    case False
    then have out: "replaceNumbered atLineStart (c # cs) = c # replaceNumbered (isLineTerminator c) cs"
      by (auto split: option.splits)
    from "2.prems" have c: "\<not> zeroWidth c" and cs: "list_all (\<lambda>c. \<not> zeroWidth c) cs" by simp_all
    have "list_all (\<lambda>c. \<not> zeroWidth c) (replaceNumbered (isLineTerminator c) cs)"
    proof (cases atLineStart)
      case True
      with False have nm: "matchNumbered (c # cs) = None" by (cases "matchNumbered (c # cs)") auto
      show ?thesis by (rule "2.IH"(1) [OF True nm cs])
    next
      case False
      show ?thesis by (rule "2.IH"(3) [OF False cs])
    qed
    with c show ?thesis unfolding out by simp
  qed
qed

lemma textNormalizer_idem_aux:
  assumes "list_all (\<lambda>c. \<not> zeroWidth c) s"
  shows "textNormalizer (textNormalizer s) = textNormalizer s"
proof -
  let ?R = "replaceNumbered True"
  have f: "filter (\<lambda>c. \<not> zeroWidth c) (?R s) = ?R s"
    using replaceNumbered_no_zeroWidth [OF assms, of True] by (simp add: list_all_iff)
  then have n1: "textNormalizer s = map normChar (?R s)"
    by (simp add: textNormalizer_def convertNumberedListsToBullets_def normalizeText_filter_map)
  have "?R (map normChar (?R s)) = map normChar (?R s)"
    by (simp add: replaceNumbered_map replaceNumbered_idem)
  then have "textNormalizer (map normChar (?R s)) = normalizeText (map normChar (?R s))"
    by (simp add: textNormalizer_def convertNumberedListsToBullets_def)
  also have "\<dots> = normalizeText (normalizeText (?R s))"
    using f by (simp add: normalizeText_filter_map)
  also have "\<dots> = normalizeText (?R s)" by (rule normalizeText_idem)
  also have "\<dots> = map normChar (?R s)" using f by (simp add: normalizeText_filter_map)
  finally show ?thesis unfolding n1 .
qed


lemma matchNumbered_all_space: "list_all isSpace xs \<Longrightarrow> matchNumbered xs = None"
proof -
  assume "list_all isSpace xs"
  then have dw: "dropWhile isSpace xs = []" by (simp add: list_all_iff)
  show ?thesis unfolding matchNumbered_def dw by simp
qed

lemma replaceNumbered_all_space: "list_all isSpace xs \<Longrightarrow> replaceNumbered b xs = xs"
proof (induction xs arbitrary: b)
  case Nil
  show ?case by simp
next
  case (Cons x xs)
  from Cons.prems have "matchNumbered (x # xs) = None" by (rule matchNumbered_all_space)
  moreover from Cons have "replaceNumbered (isLineTerminator x) xs = xs" by simp
  ultimately show ?case by simp
qed

lemma lineTerminator_classes:
  "isLineTerminator c \<Longrightarrow> isSpace c" "isLineTerminator c \<Longrightarrow> \<not> isDigit c"
  "isLineTerminator c \<Longrightarrow> c \<noteq> 0x2E"
  by (auto simp: char_class_defs)

lemma matchNumbered_within:
  assumes ns: "\<not> list_all isSpace pre" and ne: "pre \<noteq> []" and lt: "isLineTerminator (last pre)"
    and m: "matchNumbered (pre @ ys) = Some (w, t, r)"
  shows "\<exists>r0. matchNumbered pre = Some (w, t, r0) \<and> r = r0 @ ys"
proof -
  from matchNumbered_SomeD [OF m] obtain ds where
    eq: "pre @ ys = w @ ds @ 0x2E # t # r" and w: "list_all isSpace w"
    and dne: "ds \<noteq> []" and ds: "list_all isDigit ds" and t: "isSpace t"
    by blast
  let ?M = "(w @ ds @ [0x2E]) @ [t]"
  from eq have "pre @ ys = ?M @ r" by simp
  from append_eq_append_conv2 [THEN iffD1, OF this] obtain us where
    us: "(pre = ?M @ us \<and> us @ ys = r) \<or> (pre @ us = ?M \<and> ys = us @ r)"
    by blast
  have inside: "\<exists>r0. pre = ?M @ r0 \<and> r = r0 @ ys"
  proof (cases "pre = ?M @ us \<and> us @ ys = r")
    case True
    then show ?thesis by blast
  next
    case False
    with us have pu: "pre @ us = ?M" and yr: "ys = us @ r" by blast+
    show ?thesis
    proof (cases us rule: rev_cases)
      case Nil
      with pu yr show ?thesis by simp
    next
      case (snoc us' u)
      with pu have p1: "pre @ us' = w @ (ds @ [0x2E])" by simp
      from append_eq_append_conv2 [THEN iffD1, OF p1] obtain vs where
        vs: "(pre = w @ vs \<and> vs @ us' = ds @ [0x2E]) \<or> (pre @ vs = w \<and> us' = vs @ ds @ [0x2E])"
        by blast
      have False
      proof (cases "pre @ vs = w \<and> us' = vs @ ds @ [0x2E]")
        case True
        then have "set pre \<subseteq> set w" by auto
        with w have "list_all isSpace pre" by (auto simp: list_all_iff)
        with ns show False by simp
      next
        case False
        with vs have pw: "pre = w @ vs" and vu: "vs @ us' = ds @ [0x2E]" by blast+
        show False
        proof (cases "vs = []")
          case True
          with pw w ns show False by simp
        next
          case False
          with pw have "last pre = last vs" by simp
          moreover from False have "last vs \<in> set vs" by simp
          then have "last vs \<in> set (vs @ us')" by simp
          then have "last vs \<in> set ds \<union> {0x2E}" unfolding vu by simp
          ultimately have "isDigit (last pre) \<or> last pre = 0x2E"
            using ds by (auto simp: list_all_iff)
          with lt lineTerminator_classes show False by blast
        qed
      qed
      then show ?thesis ..
    qed
  qed
  then obtain r0 where p: "pre = w @ ds @ 0x2E # t # r0" and r: "r = r0 @ ys" by auto
  from matchNumbered_SomeI [OF w dne ds t, of r0] p have "matchNumbered pre = Some (w, t, r0)"
    by simp
  with r show ?thesis by blast
qed

lemma replaceNumbered_at_line_start:
  assumes ws: "list_all isSpace ws" and dne: "ds \<noteq> []" and ds: "list_all isDigit ds"
    and t: "isSpace t"
  shows "(pre = [] \<longrightarrow> b) \<Longrightarrow> (pre \<noteq> [] \<longrightarrow> isLineTerminator (last pre)) \<Longrightarrow>
    replaceNumbered b (pre @ ws @ ds @ 0x2E # t # rest)
      = replaceNumbered b pre @ ws @ js ''- '' @ replaceNumbered (isLineTerminator t) rest"
proof (induction b pre rule: replaceNumbered.induct)
  case (1 atLineStart)
  then have b: atLineStart by simp
  from dne obtain y ys where y: "ws @ ds @ 0x2E # t # rest = y # ys"
    by (cases "ws @ ds @ 0x2E # t # rest") auto
  have "matchNumbered (y # ys) = Some (ws, t, rest)"
    unfolding y [symmetric] by (rule matchNumbered_SomeI [OF ws dne ds t])
  with b have "replaceNumbered atLineStart (y # ys)
      = ws @ js ''- '' @ replaceNumbered (isLineTerminator t) rest" by simp
  then show ?case unfolding y [symmetric] by simp
next
  case (2 atLineStart c cs)
  let ?ys = "ws @ ds @ 0x2E # t # rest"
  let ?tail = "ws @ js ''- '' @ replaceNumbered (isLineTerminator t) rest"
  from "2.prems" have lt: "isLineTerminator (last (c # cs))" by simp
  have step: "replaceNumbered (isLineTerminator c) (cs @ ?ys)
      = replaceNumbered (isLineTerminator c) cs @ ?tail"
    if h: "atLineStart \<Longrightarrow> matchNumbered (c # cs) = None"
  proof -
    have p1: "cs = [] \<longrightarrow> isLineTerminator c" using lt by auto
    have p2: "cs \<noteq> [] \<longrightarrow> isLineTerminator (last cs)" using lt by auto
    show ?thesis
    proof (cases atLineStart)
      case True
      show ?thesis by (rule "2.IH"(1) [OF True h [OF True] p1 p2])
    next
      case False
      show ?thesis by (rule "2.IH"(3) [OF False p1 p2])
    qed
  qed
  show ?case
  proof (cases atLineStart)
    case False
    with step show ?thesis by simp
  next
    case True
    show ?thesis
    proof (cases "matchNumbered (c # cs)")
      case (Some x)
      then obtain w0 t0 r0 where m: "matchNumbered (c # cs) = Some (w0, t0, r0)"
        by (cases x) auto
      from matchNumbered_SomeD [OF m] obtain ds0 where
        eq: "c # cs = w0 @ ds0 @ 0x2E # t0 # r0" and w0: "list_all isSpace w0"
        and d0ne: "ds0 \<noteq> []" and d0: "list_all isDigit ds0" and t0: "isSpace t0"
        by blast
      have "matchNumbered ((w0 @ ds0 @ 0x2E # t0 # r0) @ ?ys) = Some (w0, t0, r0 @ ?ys)"
        using matchNumbered_SomeI [OF w0 d0ne d0 t0, of "r0 @ ?ys"] by simp
      then have "matchNumbered ((c # cs) @ ?ys) = Some (w0, t0, r0 @ ?ys)"
        unfolding eq [symmetric] .
      then have m': "matchNumbered (c # cs @ ?ys) = Some (w0, t0, r0 @ ?ys)" by simp
      have p1: "r0 = [] \<longrightarrow> isLineTerminator t0" using lt unfolding eq by auto
      have p2: "r0 \<noteq> [] \<longrightarrow> isLineTerminator (last r0)" using lt unfolding eq by auto
      have "replaceNumbered (isLineTerminator t0) (r0 @ ?ys)
          = replaceNumbered (isLineTerminator t0) r0 @ ?tail"
        by (rule "2.IH"(2) [OF True m refl refl p1 p2])
      with True m m' show ?thesis by simp
    next
      case None
      show ?thesis
      proof (cases "list_all isSpace (c # cs)")
        case sp: True
        then have w': "list_all isSpace ((c # cs) @ ws)" using ws by simp
        have "matchNumbered (((c # cs) @ ws) @ ds @ 0x2E # t # rest) = Some ((c # cs) @ ws, t, rest)"
          by (rule matchNumbered_SomeI [OF w' dne ds t])
        then have "matchNumbered (c # cs @ ?ys) = Some (c # cs @ ws, t, rest)" by simp
        with True have "replaceNumbered atLineStart ((c # cs) @ ?ys)
            = (c # cs) @ ws @ js ''- '' @ replaceNumbered (isLineTerminator t) rest" by simp
        with replaceNumbered_all_space [OF sp, of atLineStart] show ?thesis by simp
      next
        case nsp: False
        have "matchNumbered ((c # cs) @ ?ys) = None"
        proof (cases "matchNumbered ((c # cs) @ ?ys)")
          case None
          then show ?thesis .
        next
          case (Some x)
          then obtain w1 t1 r1 where "matchNumbered ((c # cs) @ ?ys) = Some (w1, t1, r1)"
            by (cases x) auto
          from matchNumbered_within [OF nsp _ lt this] None show ?thesis by simp
        qed
        then have "matchNumbered (c # cs @ ?ys) = None" by simp
        with True None step show ?thesis by simp
      qed
    qed
  qed
qed

lemma replaceNumbered_unchanged:
  "list_all (\<lambda>suf. matchNumbered suf = None) (lineStarts b s) \<Longrightarrow> replaceNumbered b s = s"
proof (induction s arbitrary: b)
  case Nil
  show ?case by simp
next
  case (Cons c cs)
  from Cons.prems have nm: "b \<Longrightarrow> matchNumbered (c # cs) = None"
    and rest: "list_all (\<lambda>suf. matchNumbered suf = None) (lineStarts (isLineTerminator c) cs)"
    by simp_all
  from Cons.IH [OF rest] have "replaceNumbered (isLineTerminator c) cs = cs" .
  with nm show ?case by (cases b) simp_all
qed

lemma replaceNumbered_changed:
  "replaceNumbered b s = s \<Longrightarrow> list_all (\<lambda>suf. matchNumbered suf = None) (lineStarts b s)"
proof (induction s arbitrary: b)
  case Nil
  show ?case by simp
next
  case (Cons c cs)
  have nm: "matchNumbered (c # cs) = None" if b
  proof (cases "matchNumbered (c # cs)")
    case None
    then show ?thesis .
  next
    case (Some x)
    then obtain ws t rest where m: "matchNumbered (c # cs) = Some (ws, t, rest)"
      by (cases x) auto
    from matchNumbered_SomeD [OF m] obtain ds where
      eq: "c # cs = ws @ ds @ 0x2E # t # rest" and dne: "ds \<noteq> []" and ds: "list_all isDigit ds"
      by blast
    from dne obtain d ds' where d: "ds = d # ds'" by (cases ds) auto
    from m that have out: "replaceNumbered b (c # cs)
        = ws @ 0x2D # 0x20 # replaceNumbered (isLineTerminator t) rest"
      by (simp add: js_def)
    have "ws @ 0x2D # 0x20 # replaceNumbered (isLineTerminator t) rest = c # cs"
      using out [symmetric] Cons.prems by (rule trans)
    then have "ws @ 0x2D # 0x20 # replaceNumbered (isLineTerminator t) rest
        = ws @ (d # ds') @ 0x2E # t # rest" unfolding eq d .
    then have "d = 0x2D" by simp
    with ds d hyphen_classes show ?thesis by simp
  qed
  then have "replaceNumbered b (c # cs) = c # replaceNumbered (isLineTerminator c) cs"
    by (cases b) simp_all
  with Cons.prems have "replaceNumbered (isLineTerminator c) cs = cs" by simp
  from Cons.IH [OF this] nm show ?case by simp
qed

lemma replaceNumbered_buy_milk: "replaceNumbered False (js ''Buy milk'') = js ''Buy milk''"
  by (simp add: js_def isLineTerminator_def)

lemma lineStarts_not_a_list:
  "lineStarts True (js ''Not a list: 3. foo'') = [js ''Not a list: 3. foo'']"
  by (simp add: js_def isLineTerminator_def)

lemma matchNumbered_not_a_list: "matchNumbered (js ''Not a list: 3. foo'') = None"
  by (simp add: js_def matchNumbered_def char_class_defs)

text \<open>
  C6, as the code has it. First part: wherever a line start (the start of the text or the
  position after a line terminator) is followed by white space, digits, a period and one
  white-space character of the class \<open>\s\<close> other than a line terminator (a space, a tab, a
  no-break space, ...), that match is replaced by the same white space and \<open>- \<close>; the text
  before it is converted on its own, and the text after it is scanned from a position that is
  not a line start. Second part: a text in which no line start begins a match of the regular
  expression is unchanged.
\<close>

theorem numbered_to_bullet:
  "((pre = [] \<or> isLineTerminator (last pre)) \<and> list_all isSpace ws \<and> ds \<noteq> []
      \<and> list_all isDigit ds \<and> isSpace t \<and> \<not> isLineTerminator t \<longrightarrow>
    convertNumberedListsToBullets (pre @ ws @ ds @ 0x2E # t # rest)
      = convertNumberedListsToBullets pre @ ws @ js ''- '' @ replaceNumbered False rest)
   \<and> (list_all (\<lambda>suf. matchNumbered suf = None) (lineStarts True s) \<longrightarrow>
        convertNumberedListsToBullets s = s)"
proof -
  have "convertNumberedListsToBullets (pre @ ws @ ds @ 0x2E # t # rest)
      = convertNumberedListsToBullets pre @ ws @ js ''- '' @ replaceNumbered False rest"
    if h: "pre = [] \<or> isLineTerminator (last pre)" and ws: "list_all isSpace ws"
      and dne: "ds \<noteq> []" and ds: "list_all isDigit ds" and t: "isSpace t"
      and nlt: "\<not> isLineTerminator t"
  proof -
    have p1: "pre = [] \<longrightarrow> True" by simp
    have p2: "pre \<noteq> [] \<longrightarrow> isLineTerminator (last pre)" using h by blast
    have "replaceNumbered True (pre @ ws @ ds @ 0x2E # t # rest)
        = replaceNumbered True pre @ ws @ js ''- '' @ replaceNumbered (isLineTerminator t) rest"
      by (rule replaceNumbered_at_line_start [OF ws dne ds t p1 p2])
    with nlt show ?thesis
      unfolding convertNumberedListsToBullets_def by simp
  qed
  moreover have "convertNumberedListsToBullets s = s"
    if "list_all (\<lambda>suf. matchNumbered suf = None) (lineStarts True s)"
    unfolding convertNumberedListsToBullets_def
    using that by (rule replaceNumbered_unchanged)
  ultimately show ?thesis by blast
qed

theorem numbered_to_bullet_witness:
  "convertNumberedListsToBullets (js ''  3. Buy milk'') = js ''  - Buy milk''
   \<and> convertNumberedListsToBullets (js ''Not a list: 3. foo'') = js ''Not a list: 3. foo''"
proof -
  have h: "([] = [] \<or> isLineTerminator (last [])) \<and> list_all isSpace (js ''  '') \<and> js ''3'' \<noteq> []
      \<and> list_all isDigit (js ''3'') \<and> isSpace 0x20 \<and> \<not> isLineTerminator 0x20"
    by (simp add: js_def char_class_defs)
  have n: "list_all (\<lambda>suf. matchNumbered suf = None) (lineStarts True (js ''Not a list: 3. foo''))"
    by (simp add: lineStarts_not_a_list matchNumbered_not_a_list)
  note inst = numbered_to_bullet [of "[]" "js ''  ''" "js ''3''" "0x20" "js ''Buy milk''"
      "js ''Not a list: 3. foo''"]
  from inst h have "convertNumberedListsToBullets ([] @ js ''  '' @ js ''3'' @ 0x2E # 0x20 # js ''Buy milk'')
      = convertNumberedListsToBullets [] @ js ''  '' @ js ''- ''
          @ replaceNumbered False (js ''Buy milk'')"
    by blast
  moreover have "[] @ js ''  '' @ js ''3'' @ 0x2E # 0x20 # js ''Buy milk'' = js ''  3. Buy milk''"
    by (simp add: js_def)
  moreover have "convertNumberedListsToBullets [] @ js ''  '' @ js ''- ''
          @ replaceNumbered False (js ''Buy milk'') = js ''  - Buy milk''"
    by (simp add: convertNumberedListsToBullets_def replaceNumbered_buy_milk)
       (simp add: js_def)
  ultimately have "convertNumberedListsToBullets (js ''  3. Buy milk'') = js ''  - Buy milk''"
    by simp
  moreover from inst n
  have "convertNumberedListsToBullets (js ''Not a list: 3. foo'') = js ''Not a list: 3. foo''"
    by blast
  ultimately show ?thesis by simp
qed

text \<open>
  C6 as the claim states it fails: in the line \<open>1.<TAB>foo\<close> the period is followed by a
  tab, not by a space, and the line is rewritten to \<open>- foo\<close>.
\<close>

theorem numbered_to_bullet_tab:
  "convertNumberedListsToBullets (js ''1.'' @ 0x09 # js ''foo'') = js ''- foo''
   \<and> convertNumberedListsToBullets (js ''1.'' @ 0x09 # js ''foo'') \<noteq> js ''1.'' @ 0x09 # js ''foo''"
  by (simp add: convertNumberedListsToBullets_def js_def matchNumbered_def char_class_defs)

lemma textNormalizer_joiner: "textNormalizer [0x31, 0x2060, 0x2E, 0x20, 0x78] = js ''1. x''"
  by (simp add: textNormalizer_def normalizeText_def convertNumberedListsToBullets_def
      matchNumbered_def js_def char_class_defs nonBreakingSpaceMap_def smartQuoteMap_def)

lemma textNormalizer_numbered: "textNormalizer (js ''1. x'') = js ''- x''"
  by (simp add: textNormalizer_def normalizeText_def convertNumberedListsToBullets_def
      matchNumbered_def js_def char_class_defs nonBreakingSpaceMap_def smartQuoteMap_def)

lemma textNormalizer_quoted: "textNormalizer [0x31, 0x2E, 0xA0, 0x201C, 0x78] = [0x2D, 0x20, 0x22, 0x78]"
  by (simp add: textNormalizer_def normalizeText_def convertNumberedListsToBullets_def
      matchNumbered_def js_def char_class_defs nonBreakingSpaceMap_def smartQuoteMap_def)

text \<open>
  C2, as the code has it: each of the two steps is idempotent, and the Text Normalizer is
  idempotent on every text that contains neither the word joiner U+2060 nor the zero-width
  no-break space U+FEFF, the two code units \<open>normalizeText\<close> deletes.
\<close>

theorem text_normalizer_idempotent:
  "normalizeText (normalizeText s) = normalizeText s
   \<and> convertNumberedListsToBullets (convertNumberedListsToBullets s)
       = convertNumberedListsToBullets s
   \<and> (0x2060 \<notin> set s \<and> 0xFEFF \<notin> set s \<longrightarrow>
        textNormalizer (textNormalizer s) = textNormalizer s)"
proof -
  have "textNormalizer (textNormalizer s) = textNormalizer s"
    if "0x2060 \<notin> set s \<and> 0xFEFF \<notin> set s"
  proof -
    from that have "list_all (\<lambda>c. \<not> zeroWidth c) s"
      by (auto simp: list_all_iff zeroWidth_def)
    then show ?thesis by (rule textNormalizer_idem_aux)
  qed
  moreover have "convertNumberedListsToBullets (convertNumberedListsToBullets s)
       = convertNumberedListsToBullets s"
    unfolding convertNumberedListsToBullets_def by (rule replaceNumbered_idem) simp
  ultimately show ?thesis using normalizeText_idem by blast
qed

theorem text_normalizer_idempotent_witness:
  "0x2060 \<notin> set [0x31, 0x2E, 0xA0, 0x201C, 0x78 :: cu]
   \<and> 0xFEFF \<notin> set [0x31, 0x2E, 0xA0, 0x201C, 0x78 :: cu]
   \<and> textNormalizer [0x31, 0x2E, 0xA0, 0x201C, 0x78] = [0x2D, 0x20, 0x22, 0x78]
   \<and> textNormalizer (textNormalizer [0x31, 0x2E, 0xA0, 0x201C, 0x78])
       = textNormalizer [0x31, 0x2E, 0xA0, 0x201C, 0x78]"
proof -
  have h: "0x2060 \<notin> set [0x31, 0x2E, 0xA0, 0x201C, 0x78 :: cu]
      \<and> 0xFEFF \<notin> set [0x31, 0x2E, 0xA0, 0x201C, 0x78 :: cu]"
    by simp
  with text_normalizer_idempotent [of "[0x31, 0x2E, 0xA0, 0x201C, 0x78]"]
  have "textNormalizer (textNormalizer [0x31, 0x2E, 0xA0, 0x201C, 0x78])
       = textNormalizer [0x31, 0x2E, 0xA0, 0x201C, 0x78]"
    by blast
  with h textNormalizer_quoted show ?thesis by blast
qed

text \<open>
  C2 as the claim states it fails: in \<open>1<U+2060>. x\<close> the word joiner keeps the first pass
  from seeing a numbered line; \<open>normalizeText\<close> deletes it, and the second application
  rewrites the line \<open>1. x\<close> to \<open>- x\<close>.
\<close>

theorem text_normalizer_not_idempotent:
  "textNormalizer (textNormalizer [0x31, 0x2060, 0x2E, 0x20, 0x78])
     \<noteq> textNormalizer [0x31, 0x2060, 0x2E, 0x20, 0x78]"
  by (simp add: textNormalizer_joiner textNormalizer_numbered) (simp add: js_def)

section \<open>Properties of the DOM rewriter\<close>

lemma querySelector_Nil [simp]: "querySelector t [] = None"
  by (simp add: querySelector_def)

lemma querySelector_None_iff:
  "querySelector t ns = None \<longleftrightarrow> (\<forall>n \<in> set (descendants ns). \<not> hasTagName t n)"
  by (auto simp: querySelector_def find_None_iff)

lemma querySelector_Element_None:
  "querySelector t (HTMLElement name attrs cs # ns) = None \<longleftrightarrow>
     \<not> hasTagName t (HTMLElement name attrs cs) \<and> querySelector t cs = None
       \<and> querySelector t ns = None"
  by (auto simp: querySelector_None_iff)

lemma querySelector_Text_None:
  "querySelector t (TextNode s # ns) = None \<longleftrightarrow> querySelector t ns = None"
  "querySelector t (CommentNode s # ns) = None \<longleftrightarrow> querySelector t ns = None"
  by (auto simp: querySelector_None_iff)

lemma promoteHeader_no_row: "querySelector ''tr'' table = None \<Longrightarrow> promoteHeader lib table = table"
  by (simp add: promoteHeader_def)

lemma processTables_no_row: "querySelector ''tr'' ns = None \<Longrightarrow> processTables lib ns = ns"
proof (induction lib ns rule: processTables.induct)
  case (1 lib)
  show ?case by simp
next
  case (2 lib s ns)
  then show ?case by (simp add: querySelector_Text_None)
next
  case (3 lib s ns)
  then show ?case by (simp add: querySelector_Text_None)
next
  case (4 lib name attrs cs ns)
  from "4.prems" have cs: "querySelector ''tr'' cs = None" and ns: "querySelector ''tr'' ns = None"
    by (simp_all add: querySelector_Element_None)
  let ?cs = "if hasTagName ''table'' (HTMLElement name attrs cs) then promoteHeader lib cs else cs"
  have eq: "?cs = cs" using cs by (simp add: promoteHeader_no_row)
  have "querySelector ''tr'' ?cs = None" unfolding eq by (rule cs)
  then have "processTables lib ?cs = ?cs" by (rule "4.IH"(1))
  moreover have "processTables lib ns = ns" by (rule "4.IH"(2) [OF ns])
  ultimately show ?case using eq by simp
qed

lemma promoteHeader_empty_only_row:
  assumes "querySelector ''tr'' table = Some firstRow"
    and "querySelector ''th'' (childNodes firstRow) = None"
    and "list_all (\<lambda>cell. jsTrim (lib_textContent lib cell) = [])
           (querySelectorAll ''td'' (childNodes firstRow))"
    and "querySelector ''tr'' (removeFirst ''tr'' table) = None"
  shows "promoteHeader lib table = removeFirst ''tr'' table"
  using assms by (simp add: promoteHeader_def Let_def)

lemma empty_row_table_example:
  "processTables exampleLib
     [HTMLElement (js ''table'') [] [HTMLElement (js ''tr'') [] [HTMLElement (js ''td'') [] []]]]
   = [HTMLElement (js ''table'') [] []]"
  by (simp add: promoteHeader_def querySelector_def querySelectorAll_def Let_def exampleLib_def
      jsTrim_def toLowerCase_def js_def)

lemma processTables_empty_only_row:
  assumes "hasTagName ''table'' (HTMLElement name attrs table)"
    and "querySelector ''tr'' table = Some firstRow"
    and "querySelector ''th'' (childNodes firstRow) = None"
    and "list_all (\<lambda>cell. jsTrim (lib_textContent lib cell) = [])
           (querySelectorAll ''td'' (childNodes firstRow))"
    and "querySelector ''tr'' (removeFirst ''tr'' table) = None"
  shows "processTables lib [HTMLElement name attrs table]
           = [HTMLElement name attrs (removeFirst ''tr'' table)]"
proof -
  have p: "promoteHeader lib table = removeFirst ''tr'' table"
    by (rule promoteHeader_empty_only_row [OF assms(2-5)])
  have "processTables lib (removeFirst ''tr'' table) = removeFirst ''tr'' table"
    by (rule processTables_no_row [OF assms(5)])
  with assms(1) p show ?thesis by simp
qed

lemma processTables_append:
  "processTables lib (xs @ ys) = processTables lib xs @ processTables lib ys"
  by (induction lib xs rule: processTables.induct) simp_all

lemma processLists_append:
  "processLists lib inUl (xs @ ys) = processLists lib inUl xs @ processLists lib inUl ys"
  by (induction lib inUl xs rule: processLists.induct) (simp_all add: Let_def)

lemma processLists_no_ul:
  "querySelector ''ul'' ns = None \<Longrightarrow> processLists lib False ns = ns"
  by (induction ns rule: descendants.induct)
     (simp_all add: querySelector_Element_None querySelector_Text_None)

lemma querySelector_removeFirst:
  "querySelector t ns = None \<Longrightarrow> querySelector t (removeFirst t' ns) = None"
  by (induction t' ns rule: removeFirst.induct)
     (simp_all add: querySelector_Element_None querySelector_Text_None)

text \<open>Above a place with no table over it, the table pass works on the place and on the siblings.\<close>

lemma processTables_plug:
  "\<not> underTag ''table'' fs \<Longrightarrow>
   processTables lib (plug fs ns)
     = plug (map (\<lambda>(pre, name, attrs, post).
                    (processTables lib pre, name, attrs, processTables lib post)) fs)
         (processTables lib ns)"
proof (induction fs arbitrary: ns)
  case Nil
  show ?case by simp
next
  case (Cons f fs)
  obtain pre name attrs post where f: "f = (pre, name, attrs, post)" by (cases f) auto
  from Cons.prems have nt: "toLowerCase name \<noteq> js ''table''" and rest: "\<not> underTag ''table'' fs"
    by (simp_all add: underTag_def f)
  have "processTables lib (pre @ HTMLElement name attrs ns # post)
      = processTables lib pre @ HTMLElement name attrs (processTables lib ns)
          # processTables lib post"
    using nt by (simp add: processTables_append)
  with Cons.IH [OF rest, of "pre @ HTMLElement name attrs ns # post"] show ?case
    by (simp add: f)
qed

text \<open>The same for the list pass above a place with no \<open>ul\<close> over it.\<close>

lemma processLists_plug:
  "\<not> underTag ''ul'' fs \<Longrightarrow>
   processLists lib False (plug fs ns)
     = plug (map (\<lambda>(pre, name, attrs, post).
                    (processLists lib False pre, name, attrs, processLists lib False post)) fs)
         (processLists lib False ns)"
proof (induction fs arbitrary: ns)
  case Nil
  show ?case by simp
next
  case (Cons f fs)
  obtain pre name attrs post where f: "f = (pre, name, attrs, post)" by (cases f) auto
  from Cons.prems have nu: "toLowerCase name \<noteq> js ''ul''" and rest: "\<not> underTag ''ul'' fs"
    by (simp_all add: underTag_def f)
  have "processLists lib False (pre @ HTMLElement name attrs ns # post)
      = processLists lib False pre @ HTMLElement name attrs (processLists lib False ns)
          # processLists lib False post"
    using nu by (simp add: processLists_append)
  with Cons.IH [OF rest, of "pre @ HTMLElement name attrs ns # post"] show ?case
    by (simp add: f)
qed

lemma underTag_map:
  "underTag t (map (\<lambda>(pre, name, attrs, post). (g pre, name, attrs, g post)) fs) = underTag t fs"
  by (induction fs) (auto simp: underTag_def)

lemma processDom_plug:
  assumes "\<not> underTag ''table'' fs" and "\<not> underTag ''ul'' fs"
  shows "processDom lib (plug fs ns)
           = plug (map (processFrame lib) fs) (processLists lib False (processTables lib ns))"
proof -
  let ?g = "\<lambda>(pre, name, attrs, post). (processTables lib pre, name, attrs, processTables lib post)"
  let ?h = "\<lambda>(pre, name, attrs, post).
      (processLists lib False pre, name, attrs, processLists lib False post)"
  have u: "\<not> underTag ''ul'' (map ?g fs)" using assms(2) by (simp add: underTag_map)
  have hg: "map ?h (map ?g fs) = map (processFrame lib) fs"
    by (simp add: processFrame_def processDom_def split_def)
  have "processLists lib False (processTables lib (plug fs ns))
      = plug (map ?h (map ?g fs)) (processLists lib False (processTables lib ns))"
    unfolding processTables_plug [OF assms(1)] processLists_plug [OF u] ..
  then show ?thesis unfolding hg processDom_def .
qed

text \<open>
  C3, as the code has it. Take any table of the parsed document that is not inside
  another table and has no \<open>ul\<close> above it or inside it. If its first row has no header
  cell, the data cells of that row all have empty trimmed text (or there are none) and the
  table has no other row, then in the tree \<open>processHtml\<close> serializes the table is the
  input table without that row: the row is removed, no cell is retagged, the other nodes
  of the table are as before. The siblings of the table and of the elements above it are
  processed on their own.
\<close>

theorem empty_only_row_removed:
  assumes "lib_parse lib html = plug fs (pre @ HTMLElement name attrs table # post)"
    and "hasTagName ''table'' (HTMLElement name attrs table)"
    and "\<not> underTag ''table'' fs"
    and "\<not> underTag ''ul'' fs"
    and "querySelector ''ul'' table = None"
    and "querySelector ''tr'' table = Some firstRow"
    and "querySelector ''th'' (childNodes firstRow) = None"
    and "list_all (\<lambda>cell. jsTrim (lib_textContent lib cell) = [])
           (querySelectorAll ''td'' (childNodes firstRow))"
    and "querySelector ''tr'' (removeFirst ''tr'' table) = None"
  shows "processHtml lib html
           = lib_innerHTML lib
               (plug (map (processFrame lib) fs)
                  (processDom lib pre @ HTMLElement name attrs (removeFirst ''tr'' table)
                     # processDom lib post))
         \<and> removeFirst ''tr'' table \<noteq> table"
proof -
  let ?T = "HTMLElement name attrs table"
  let ?T' = "HTMLElement name attrs (removeFirst ''tr'' table)"
  have t: "processTables lib [?T] = [?T']"
    by (rule processTables_empty_only_row [OF assms(2) assms(6-9)])
  have "processTables lib (pre @ [?T] @ post)
      = processTables lib pre @ processTables lib [?T] @ processTables lib post"
    by (simp only: processTables_append)
  then have tp: "processTables lib (pre @ ?T # post)
      = processTables lib pre @ [?T'] @ processTables lib post"
    unfolding t by simp
  from assms(2) have "\<not> hasTagName ''ul'' ?T'" by (auto simp: js_def)
  moreover have "querySelector ''ul'' (removeFirst ''tr'' table) = None"
    by (rule querySelector_removeFirst [OF assms(5)])
  ultimately have "querySelector ''ul'' [?T'] = None"
    by (simp add: querySelector_Element_None)
  then have l: "processLists lib False [?T'] = [?T']" by (rule processLists_no_ul)
  have "processLists lib False (processTables lib (pre @ ?T # post))
      = processLists lib False (processTables lib pre) @ processLists lib False [?T']
          @ processLists lib False (processTables lib post)"
    unfolding tp by (simp only: processLists_append)
  then have "processLists lib False (processTables lib (pre @ ?T # post))
      = processDom lib pre @ ?T' # processDom lib post"
    unfolding l by (simp add: processDom_def)
  with processDom_plug [OF assms(3,4), of lib "pre @ ?T # post"]
  have "processDom lib (plug fs (pre @ ?T # post))
      = plug (map (processFrame lib) fs) (processDom lib pre @ ?T' # processDom lib post)"
    by simp
  then have "processHtml lib html
      = lib_innerHTML lib
          (plug (map (processFrame lib) fs) (processDom lib pre @ ?T' # processDom lib post))"
    by (simp add: processHtml_def assms(1))
  moreover from assms(6,9) have "removeFirst ''tr'' table \<noteq> table" by auto
  ultimately show ?thesis by simp
qed

theorem empty_only_row_removed_witness:
  "processHtml
     (exampleLib\<lparr>lib_parse := \<lambda>s. [HTMLElement (js ''div'') []
        [TextNode (js ''a''),
         HTMLElement (js ''table'') [] [HTMLElement (js ''tr'') [] [HTMLElement (js ''td'') [] []]]]]\<rparr>)
     (js ''<div>a<table><tr><td></td></tr></table></div>'')
   = js ''<div>a<table></table></div>''"
proof -
  let ?row = "HTMLElement (js ''tr'') [] [HTMLElement (js ''td'') [] []]"
  let ?doc = "[HTMLElement (js ''div'') [] [TextNode (js ''a''), HTMLElement (js ''table'') [] [?row]]]"
  let ?lib = "exampleLib\<lparr>lib_parse := \<lambda>s. ?doc\<rparr>"
  let ?html = "js ''<div>a<table><tr><td></td></tr></table></div>''"
  let ?fs = "[([], js ''div'', [], [])] :: frame list"
  have 1: "lib_parse ?lib ?html
      = plug ?fs ([TextNode (js ''a'')] @ HTMLElement (js ''table'') [] [?row] # [])"
    by simp
  have 2: "hasTagName ''table'' (HTMLElement (js ''table'') [] [?row])"
    by (simp add: toLowerCase_def js_def)
  have 3: "\<not> underTag ''table'' ?fs" and 4: "\<not> underTag ''ul'' ?fs"
    by (simp_all add: underTag_def toLowerCase_def js_def)
  have 5: "querySelector ''ul'' [?row] = None"
    by (simp add: querySelector_def toLowerCase_def js_def)
  have 6: "querySelector ''tr'' [?row] = Some ?row"
    by (simp add: querySelector_def toLowerCase_def js_def)
  have 7: "querySelector ''th'' (childNodes ?row) = None"
    by (simp add: querySelector_def toLowerCase_def js_def)
  have 8: "list_all (\<lambda>cell. jsTrim (lib_textContent ?lib cell) = [])
           (querySelectorAll ''td'' (childNodes ?row))"
    by (simp add: querySelectorAll_def toLowerCase_def js_def exampleLib_def jsTrim_def)
  have 9: "querySelector ''tr'' (removeFirst ''tr'' [?row]) = None"
    by (simp add: toLowerCase_def js_def)
  from empty_only_row_removed [OF 1 2 3 4 5 6 7 8 9]
  have "processHtml ?lib ?html
      = lib_innerHTML ?lib
          (plug (map (processFrame ?lib) ?fs)
             (processDom ?lib [TextNode (js ''a'')]
                @ HTMLElement (js ''table'') [] (removeFirst ''tr'' [?row]) # processDom ?lib []))"
    by (rule conjunct1)
  also have "\<dots> = js ''<div>a<table></table></div>''"
    by (simp add: processFrame_def processDom_def exampleLib_def toLowerCase_def js_def)
  finally show ?thesis .
qed

text \<open>
  C3 as the claim states it fails. The tree is the parse of
  \<open><table><tr><td></td></tr></table>\<close>: the first row has no header cell, its only cell is
  empty and there is no other row; the result is \<open><table></table>\<close>, the row is gone.
\<close>

theorem empty_only_row_not_kept:
  "processDom exampleLib
     [HTMLElement (js ''table'') [] [HTMLElement (js ''tr'') [] [HTMLElement (js ''td'') [] []]]]
   = [HTMLElement (js ''table'') [] []]
   \<and> processDom exampleLib
     [HTMLElement (js ''table'') [] [HTMLElement (js ''tr'') [] [HTMLElement (js ''td'') [] []]]]
   \<noteq> [HTMLElement (js ''table'') [] [HTMLElement (js ''tr'') [] [HTMLElement (js ''td'') [] []]]]"
  unfolding processDom_def empty_row_table_example by (simp add: toLowerCase_def js_def)

lemma ol_in_ul_example:
  "processDom exampleLib
     [HTMLElement (js ''ul'') [] [HTMLElement (js ''li'') []
        [HTMLElement (js ''ol'') [] [HTMLElement (js ''li'') [] [TextNode (0x2022 # js '' x'')]]]]]
   = [HTMLElement (js ''ul'') [] [HTMLElement (js ''li'') []
        [HTMLElement (js ''ol'') [] [HTMLElement (js ''li'') [] [TextNode (js ''x'')]]]]]"
  by (simp add: processDom_def exampleLib_def stripBullet_def unicodeBullets_def Let_def
      toLowerCase_def js_def char_class_defs)

lemma ol_alone_example:
  "processDom exampleLib
     [HTMLElement (js ''ol'') [] [HTMLElement (js ''li'') [] [TextNode (0x2022 # js '' x'')]]]
   = [HTMLElement (js ''ol'') [] [HTMLElement (js ''li'') [] [TextNode (0x2022 # js '' x'')]]]"
  by (simp add: processDom_def exampleLib_def toLowerCase_def js_def)

text \<open>
  C4 at the parse of \<open><ul><li><ol><li>\<bullet> x</li></ol></li></ul>\<close> (the bullet is
  U+2022): the inner item belongs to the ordered list, but the selector \<open>ul li\<close> selects
  it because a \<open>ul\<close> is above it, and its inner markup \<open>\<bullet> x\<close> becomes \<open>x\<close>. The same
  ordered list with no \<open>ul\<close> above it keeps its item as it is.
\<close>

theorem ordered_list_item_in_ul_stripped:
  "processDom exampleLib
     [HTMLElement (js ''ul'') [] [HTMLElement (js ''li'') []
        [HTMLElement (js ''ol'') [] [HTMLElement (js ''li'') [] [TextNode (0x2022 # js '' x'')]]]]]
   = [HTMLElement (js ''ul'') [] [HTMLElement (js ''li'') []
        [HTMLElement (js ''ol'') [] [HTMLElement (js ''li'') [] [TextNode (js ''x'')]]]]]
   \<and> processDom exampleLib
     [HTMLElement (js ''ol'') [] [HTMLElement (js ''li'') [] [TextNode (0x2022 # js '' x'')]]]
   = [HTMLElement (js ''ol'') [] [HTMLElement (js ''li'') [] [TextNode (0x2022 # js '' x'')]]]"
  using ol_in_ul_example ol_alone_example by (rule conjI)

section \<open>Properties of the renderer adapter\<close>

lemma map_of_objectSpread_defaults:
  "map_of (objectSpread options defaultTurndownOptions)
     = map_of options ++ map_of defaultTurndownOptions"
  by (rule ext) (simp add: objectSpread_def defaultTurndownOptions_def update_conv' map_add_def)

text \<open>
  C8: with a non-empty options object the service is constructed from the merge of the
  supplied options and the defaults in which the defaults win on every key they have (as a
  map, \<open>options ++ defaults\<close>), so heading style, code block style and bullet marker are the
  defaults whatever was supplied, and a key the defaults lack keeps the supplied value. The
  GFM plugin is added.
\<close>

theorem custom_options_defaults_win:
  assumes "options \<noteq> []"
  shows "map_of (serviceOptions (fst (getTurndownService options st)))
           = map_of options ++ map_of defaultTurndownOptions
         \<and> (\<forall>k v. map_of defaultTurndownOptions k = Some v \<longrightarrow>
               map_of (serviceOptions (fst (getTurndownService options st))) k = Some v)
         \<and> (\<forall>k. map_of defaultTurndownOptions k = None \<longrightarrow>
               map_of (serviceOptions (fst (getTurndownService options st))) k = map_of options k)
         \<and> map_of (serviceOptions (fst (getTurndownService options st))) ''headingStyle''
             = Some (JsString ''atx'')
         \<and> map_of (serviceOptions (fst (getTurndownService options st))) ''codeBlockStyle''
             = Some (JsString ''fenced'')
         \<and> map_of (serviceOptions (fst (getTurndownService options st))) ''bulletListMarker''
             = Some (JsString ''-'')
         \<and> plugins (fst (getTurndownService options st)) = [''gfm'']"
proof -
  from assms have ne: "0 < length (map fst options)" by simp
  have so: "serviceOptions (fst (getTurndownService options st))
      = objectSpread options defaultTurndownOptions"
    using ne by (simp add: getTurndownService_def newTurndownService_def use_def)
  have pl: "plugins (fst (getTurndownService options st)) = [''gfm'']"
    using ne by (simp add: getTurndownService_def newTurndownService_def use_def)
  have m: "map_of (serviceOptions (fst (getTurndownService options st)))
      = map_of options ++ map_of defaultTurndownOptions"
    unfolding so by (rule map_of_objectSpread_defaults)
  have d: "map_of (serviceOptions (fst (getTurndownService options st))) k = Some v"
    if "map_of defaultTurndownOptions k = Some v" for k v
    unfolding m using that by (simp add: map_add_def)
  have n: "map_of (serviceOptions (fst (getTurndownService options st))) k = map_of options k"
    if "map_of defaultTurndownOptions k = None" for k
    unfolding m using that by (simp add: map_add_def)
  have h: "map_of defaultTurndownOptions ''headingStyle'' = Some (JsString ''atx'')"
    "map_of defaultTurndownOptions ''codeBlockStyle'' = Some (JsString ''fenced'')"
    "map_of defaultTurndownOptions ''bulletListMarker'' = Some (JsString ''-'')"
    by (simp_all add: defaultTurndownOptions_def)
  from m d n d [OF h(1)] d [OF h(2)] d [OF h(3)] pl show ?thesis by blast
qed

theorem custom_options_defaults_win_witness:
  "map_of (serviceOptions (fst (getTurndownService
       [(''headingStyle'', JsString ''setext''), (''emDelimiter'', JsString ''*'')] initialState)))
     ''headingStyle'' = Some (JsString ''atx'')
   \<and> map_of (serviceOptions (fst (getTurndownService
       [(''headingStyle'', JsString ''setext''), (''emDelimiter'', JsString ''*'')] initialState)))
     ''emDelimiter'' = Some (JsString ''*'')"
proof -
  let ?o = "[(''headingStyle'', JsString ''setext''), (''emDelimiter'', JsString ''*'')]"
  have ne: "?o \<noteq> []" by simp
  have nd: "map_of defaultTurndownOptions ''emDelimiter'' = None"
    by (simp add: defaultTurndownOptions_def)
  from custom_options_defaults_win [OF ne, of initialState] nd
  have "map_of (serviceOptions (fst (getTurndownService ?o initialState))) ''headingStyle''
      = Some (JsString ''atx'')"
    and "map_of (serviceOptions (fst (getTurndownService ?o initialState))) ''emDelimiter''
      = map_of ?o ''emDelimiter''"
    by blast+
  then show ?thesis by simp
qed

lemma getTurndownServices_length:
  "getTurndownServices optss st = (svcs, st') \<Longrightarrow> length svcs = length optss"
  by (induction optss arbitrary: st svcs st') (auto simp: Let_def split: prod.splits)

lemma getTurndownService_custom:
  "options \<noteq> [] \<Longrightarrow> getTurndownService options st =
     (\<lparr>instanceId = constructed st,
       serviceOptions = objectSpread options defaultTurndownOptions, plugins = [''gfm'']\<rparr>,
      st\<lparr>constructed := Suc (constructed st)\<rparr>)"
  by (simp add: getTurndownService_def newTurndownService_def use_def)

lemma getTurndownService_reuse:
  "turndownServiceInstance st = Some s \<Longrightarrow> getTurndownService [] st = (s, st)"
  by (simp add: getTurndownService_def)

lemma getTurndownService_create:
  "turndownServiceInstance st = None \<Longrightarrow> getTurndownService [] st =
     (\<lparr>instanceId = constructed st, serviceOptions = defaultTurndownOptions, plugins = [''gfm'']\<rparr>,
      st\<lparr>constructed := Suc (constructed st),
         turndownServiceInstance :=
           Some \<lparr>instanceId = constructed st, serviceOptions = defaultTurndownOptions,
                 plugins = [''gfm'']\<rparr>\<rparr>)"
  by (simp add: getTurndownService_def newTurndownService_def use_def Let_def)

text \<open>Once the variable holds an instance, every call leaves it there and default calls return it.\<close>

lemma singleton_kept:
  assumes "turndownServiceInstance st = Some s" and "getTurndownServices optss st = (svcs, st')"
  shows "turndownServiceInstance st' = Some s
         \<and> (\<forall>i < length optss. optss ! i = [] \<longrightarrow> svcs ! i = s)
         \<and> constructed st' = constructed st + length (filter (\<lambda>options. options \<noteq> []) optss)"
  using assms
proof (induction optss arbitrary: st svcs st')
  case Nil
  then show ?case by simp
next
  case (Cons options rest)
  obtain svc st1 where c1: "getTurndownService options st = (svc, st1)"
    by (cases "getTurndownService options st")
  obtain svcs1 st2 where c2: "getTurndownServices rest st1 = (svcs1, st2)"
    by (cases "getTurndownServices rest st1")
  from Cons.prems(2) c1 c2 have r: "svcs = svc # svcs1" "st' = st2" by simp_all
  have s1: "turndownServiceInstance st1 = Some s"
    and k1: "constructed st1 = constructed st + (if options \<noteq> [] then 1 else 0)"
    and v1: "options = [] \<longrightarrow> svc = s"
  proof -
    show "turndownServiceInstance st1 = Some s"
      using c1 Cons.prems(1)
      by (cases "options = []") (auto simp: getTurndownService_reuse getTurndownService_custom)
    show "constructed st1 = constructed st + (if options \<noteq> [] then 1 else 0)"
      using c1 Cons.prems(1)
      by (cases "options = []") (auto simp: getTurndownService_reuse getTurndownService_custom)
    show "options = [] \<longrightarrow> svc = s"
      using c1 Cons.prems(1) by (auto simp: getTurndownService_reuse)
  qed
  from Cons.IH [OF s1 c2] have ih: "turndownServiceInstance st2 = Some s"
    "\<forall>i < length rest. rest ! i = [] \<longrightarrow> svcs1 ! i = s"
    "constructed st2 = constructed st1 + length (filter (\<lambda>options. options \<noteq> []) rest)"
    by simp_all
  have "\<forall>i < length (options # rest). (options # rest) ! i = [] \<longrightarrow> svcs ! i = s"
  proof (intro allI impI)
    fix i assume "i < length (options # rest)" and "(options # rest) ! i = []"
    then show "svcs ! i = s" using v1 ih(2) r(1) by (cases i) auto
  qed
  with ih(1,3) k1 r(2) show ?case by simp
qed

lemma singleton_lazy:
  assumes "turndownServiceInstance st = None" and "getTurndownServices optss st = (svcs, st')"
  shows "(if [] \<in> set optss
          then (\<exists>s. turndownServiceInstance st' = Some s
                 \<and> (\<forall>i < length optss. optss ! i = [] \<longrightarrow> svcs ! i = s))
               \<and> constructed st'
                   = constructed st + length (filter (\<lambda>options. options \<noteq> []) optss) + 1
          else turndownServiceInstance st' = None
               \<and> constructed st'
                   = constructed st + length (filter (\<lambda>options. options \<noteq> []) optss))"
  using assms
proof (induction optss arbitrary: st svcs st')
  case Nil
  then show ?case by simp
next
  case (Cons options rest)
  obtain svc st1 where c1: "getTurndownService options st = (svc, st1)"
    by (cases "getTurndownService options st")
  obtain svcs1 st2 where c2: "getTurndownServices rest st1 = (svcs1, st2)"
    by (cases "getTurndownServices rest st1")
  from Cons.prems(2) c1 c2 have r: "svcs = svc # svcs1" "st' = st2" by simp_all
  show ?case
  proof (cases "options = []")
    case True
    with c1 Cons.prems(1) have s1: "turndownServiceInstance st1 = Some svc"
      and k1: "constructed st1 = Suc (constructed st)"
      by (auto simp: getTurndownService_create)
    from singleton_kept [OF s1 c2] have ih: "turndownServiceInstance st2 = Some svc"
      "\<forall>i < length rest. rest ! i = [] \<longrightarrow> svcs1 ! i = svc"
      "constructed st2 = constructed st1 + length (filter (\<lambda>options. options \<noteq> []) rest)"
      by simp_all
    have "\<forall>i < length (options # rest). (options # rest) ! i = [] \<longrightarrow> svcs ! i = svc"
    proof (intro allI impI)
      fix i assume "i < length (options # rest)" and "(options # rest) ! i = []"
      then show "svcs ! i = svc" using ih(2) r(1) by (cases i) auto
    qed
    with ih(1,3) k1 r(2) True show ?thesis by auto
  next
    case False
    with c1 Cons.prems(1) have s1: "turndownServiceInstance st1 = None"
      and k1: "constructed st1 = Suc (constructed st)"
      by (auto simp: getTurndownService_custom)
    note ih = Cons.IH [OF s1 c2]
    show ?thesis
    proof (cases "[] \<in> set rest")
      case True
      with ih obtain s where s: "turndownServiceInstance st2 = Some s"
        "\<forall>i < length rest. rest ! i = [] \<longrightarrow> svcs1 ! i = s"
        and k: "constructed st2
            = constructed st1 + length (filter (\<lambda>options. options \<noteq> []) rest) + 1"
        by auto
      have "\<forall>i < length (options # rest). (options # rest) ! i = [] \<longrightarrow> svcs ! i = s"
      proof (intro allI impI)
        fix i assume "i < length (options # rest)" and "(options # rest) ! i = []"
        then show "svcs ! i = s" using False s(2) r(1) by (cases i) auto
      qed
      with s(1) k k1 r(2) True False show ?thesis by auto
    next
      case nr: False
      with ih have "turndownServiceInstance st2 = None"
        and "constructed st2 = constructed st1 + length (filter (\<lambda>options. options \<noteq> []) rest)"
        by auto
      with k1 r(2) nr False show ?thesis by auto
    qed
  qed
qed

text \<open>
  C9: in every sequence of calls from the initial state, any two calls with the default
  (empty) options return the same instance; the number of services constructed is the
  number of calls with custom options, plus one if there was a default call, so the
  singleton is constructed at most once; before the first default call the variable is
  still \<open>null\<close>, after it the variable holds the returned instance. A call with non-empty
  options returns the same service whatever the variable holds and leaves the variable as
  it is: it neither reads nor writes it.
\<close>

theorem renderer_singleton:
  assumes "getTurndownServices optss initialState = (svcs, st')"
  shows "(\<forall>i < length optss. \<forall>j < length optss.
            optss ! i = [] \<and> optss ! j = [] \<longrightarrow> svcs ! i = svcs ! j)
         \<and> constructed st' = length (filter (\<lambda>options. options \<noteq> []) optss)
                              + (if [] \<in> set optss then 1 else 0)
         \<and> (\<forall>i < length optss. optss ! i = [] \<longrightarrow> turndownServiceInstance st' = Some (svcs ! i))
         \<and> ([] \<notin> set optss \<longrightarrow> turndownServiceInstance st' = None)
         \<and> (\<forall>options st x. options \<noteq> [] \<longrightarrow>
              getTurndownService options (st\<lparr>turndownServiceInstance := x\<rparr>)
                = (fst (getTurndownService options st),
                   (snd (getTurndownService options st))\<lparr>turndownServiceInstance := x\<rparr>))"
proof -
  have i0: "turndownServiceInstance initialState = None" and k0: "constructed initialState = 0"
    by (simp_all add: initialState_def)
  note l = singleton_lazy [OF i0 assms]
  have c: "getTurndownService options (st\<lparr>turndownServiceInstance := x\<rparr>)
      = (fst (getTurndownService options st),
         (snd (getTurndownService options st))\<lparr>turndownServiceInstance := x\<rparr>)"
    if "options \<noteq> []" for options st x
    using that by (simp add: getTurndownService_custom)
  show ?thesis
  proof (cases "[] \<in> set optss")
    case True
    with l k0 obtain s where s: "turndownServiceInstance st' = Some s"
      "\<forall>i < length optss. optss ! i = [] \<longrightarrow> svcs ! i = s"
      and k: "constructed st' = length (filter (\<lambda>options. options \<noteq> []) optss) + 1"
      by auto
    from s k True c show ?thesis by auto
  next
    case False
    with l k0 have n: "turndownServiceInstance st' = None"
      and k: "constructed st' = length (filter (\<lambda>options. options \<noteq> []) optss)"
      by auto
    from False have "\<forall>i < length optss. optss ! i \<noteq> []" by (metis nth_mem)
    with n k False c show ?thesis by auto
  qed
qed

theorem renderer_singleton_witness:
  "fst (getTurndownServices [[], [(''headingStyle'', JsString ''setext'')], []] initialState) ! 0
     = fst (getTurndownServices [[], [(''headingStyle'', JsString ''setext'')], []] initialState) ! 2
   \<and> constructed (snd (getTurndownServices [[], [(''headingStyle'', JsString ''setext'')], []]
         initialState)) = 2
   \<and> turndownServiceInstance (snd (getTurndownServices
         [[], [(''headingStyle'', JsString ''setext'')], []] initialState))
       = Some (fst (getTurndownServices [[], [(''headingStyle'', JsString ''setext'')], []]
           initialState) ! 0)
   \<and> turndownServiceInstance (snd (getTurndownServices [[(''headingStyle'', JsString ''setext'')]]
         initialState)) = None
   \<and> getTurndownService [(''headingStyle'', JsString ''setext'')]
         (initialState\<lparr>turndownServiceInstance := Some \<lparr>instanceId = 7, serviceOptions = [],
            plugins = []\<rparr>\<rparr>)
       = (fst (getTurndownService [(''headingStyle'', JsString ''setext'')] initialState),
          (snd (getTurndownService [(''headingStyle'', JsString ''setext'')] initialState))
            \<lparr>turndownServiceInstance := Some \<lparr>instanceId = 7, serviceOptions = [],
               plugins = []\<rparr>\<rparr>)"
proof -
  let ?c = "[(''headingStyle'', JsString ''setext'')]"
  let ?os = "[[], ?c, []]"
  let ?r = "getTurndownServices ?os initialState"
  let ?q = "getTurndownServices [?c] initialState"
  have r: "?r = (fst ?r, snd ?r)" and q: "?q = (fst ?q, snd ?q)" by simp_all
  note a = renderer_singleton [OF r]
  note b = renderer_singleton [OF q]
  have l: "(0::nat) < length ?os" "(2::nat) < length ?os" "?os ! 0 = []" "?os ! 2 = []"
    "[] \<in> set ?os" "length (filter (\<lambda>options. options \<noteq> []) ?os) = 1"
    by simp_all
  from a l(1-4) have "fst ?r ! 0 = fst ?r ! 2" by blast
  moreover from a l(5,6) have "constructed (snd ?r) = 2" by simp
  moreover from a l(1,3) have "turndownServiceInstance (snd ?r) = Some (fst ?r ! 0)" by blast
  moreover have "[] \<notin> set [?c]" by simp
  with b have "turndownServiceInstance (snd ?q) = None" by blast
  moreover have "?c \<noteq> []" by simp
  with a have "getTurndownService ?c
         (initialState\<lparr>turndownServiceInstance := Some \<lparr>instanceId = 7, serviceOptions = [],
            plugins = []\<rparr>\<rparr>)
       = (fst (getTurndownService ?c initialState),
          (snd (getTurndownService ?c initialState))
            \<lparr>turndownServiceInstance := Some \<lparr>instanceId = 7, serviceOptions = [],
               plugins = []\<rparr>\<rparr>)"
    by blast
  ultimately show ?thesis by blast
qed

section \<open>Properties of the extension check\<close>

lemma lower_dot:
  "((if 0x41 \<le> c \<and> c \<le> 0x5A then c + 0x20 else c) = (0x2E::cu)) = (c = 0x2E)"
  by unat_arith

lemma toLowerCase_doc:
  assumes "toLowerCase e = js ''.doc''"
  shows "\<exists>a b c. e = [0x2E, a, b, c] \<and> a \<noteq> 0x2E \<and> b \<noteq> 0x2E \<and> c \<noteq> 0x2E"
proof -
  have "length (toLowerCase e) = length (js ''.doc'')" unfolding assms ..
  then have "length e = Suc (Suc (Suc (Suc 0)))" by (simp add: toLowerCase_def js_def)
  then obtain d a b c where e: "e = [d, a, b, c]"
    by (auto simp: length_Suc_conv)
  from assms have l: "(if 0x41 \<le> d \<and> d \<le> 0x5A then d + 0x20 else d) = 0x2E"
    "(if 0x41 \<le> a \<and> a \<le> 0x5A then a + 0x20 else a) = 0x64"
    "(if 0x41 \<le> b \<and> b \<le> 0x5A then b + 0x20 else b) = 0x6F"
    "(if 0x41 \<le> c \<and> c \<le> 0x5A then c + 0x20 else c) = 0x63"
    unfolding e by (simp_all add: toLowerCase_def js_def)
  from l(1) have "d = 0x2E" by (simp only: lower_dot)
  moreover from l(2) have "a \<noteq> 0x2E" by auto
  moreover from l(3) have "b \<noteq> 0x2E" by auto
  moreover from l(4) have "c \<noteq> 0x2E" by auto
  ultimately show ?thesis using e by simp
qed

lemma afterLastDot_append: "0x2E \<notin> set e \<Longrightarrow> afterLastDot (stem @ 0x2E # e) = e"
proof -
  assume "0x2E \<notin> set e"
  then have "takeWhile (\<lambda>c. c \<noteq> 0x2E) (rev e @ 0x2E # rev stem) = rev e"
    by (auto simp: takeWhile_tail)
  then show ?thesis by (simp add: afterLastDot_def)
qed

lemma split_last_dot:
  assumes "0x2E \<in> set s"
  shows "\<exists>stem. s = stem @ 0x2E # afterLastDot s"
proof -
  let ?P = "\<lambda>c::cu. c \<noteq> 0x2E"
  from assms have "dropWhile ?P (rev s) \<noteq> []" by (simp add: dropWhile_eq_Nil_conv)
  then obtain d r where d: "dropWhile ?P (rev s) = d # r" by (cases "dropWhile ?P (rev s)") auto
  with hd_dropWhile [of ?P "rev s"] have "d = 0x2E" by simp
  have "rev s = takeWhile ?P (rev s) @ dropWhile ?P (rev s)" by simp
  then have "rev s = takeWhile ?P (rev s) @ 0x2E # r" unfolding d \<open>d = 0x2E\<close> .
  then have "rev (rev s) = rev (takeWhile ?P (rev s) @ 0x2E # r)" by (rule arg_cong)
  then have "s = rev r @ 0x2E # afterLastDot s" by (simp add: afterLastDot_def)
  then show ?thesis by blast
qed

lemma node_rejects_iff:
  "toLowerCase (posixExtname p) = js ''.doc'' \<longleftrightarrow>
     (\<exists>stem e. basename p = stem @ e \<and> stem \<noteq> [] \<and> toLowerCase e = js ''.doc'')"
proof
  assume l: "toLowerCase (posixExtname p) = js ''.doc''"
  have ne: "toLowerCase [] \<noteq> js ''.doc''" by (simp add: toLowerCase_def js_def)
  let ?b = "basename p"
  from l ne have dot: "0x2E \<in> set ?b" and len: "length ?b \<noteq> Suc (length (afterLastDot ?b))"
    and ext: "posixExtname p = 0x2E # afterLastDot ?b"
    by (auto simp: posixExtname_def Let_def split: if_splits)
  from split_last_dot [OF dot] obtain stem where s: "?b = stem @ 0x2E # afterLastDot ?b" by blast
  have ls: "length ?b = length stem + Suc (length (afterLastDot ?b))"
    using arg_cong [where f = length, OF s] by simp
  have "stem \<noteq> []"
  proof
    assume "stem = []"
    with ls have "length ?b = Suc (length (afterLastDot ?b))" by simp
    with len show False by simp
  qed
  moreover have "toLowerCase (0x2E # afterLastDot ?b) = js ''.doc''" using l unfolding ext .
  ultimately have "?b = stem @ (0x2E # afterLastDot ?b) \<and> stem \<noteq> []
      \<and> toLowerCase (0x2E # afterLastDot ?b) = js ''.doc''"
    using s by blast
  then show "\<exists>stem e. ?b = stem @ e \<and> stem \<noteq> [] \<and> toLowerCase e = js ''.doc''"
    by (intro exI)
next
  assume "\<exists>stem e. basename p = stem @ e \<and> stem \<noteq> [] \<and> toLowerCase e = js ''.doc''"
  then obtain stem e where b: "basename p = stem @ e" and st: "stem \<noteq> []"
    and e: "toLowerCase e = js ''.doc''" by blast
  from toLowerCase_doc [OF e] obtain a b' c where
    e4: "e = [0x2E, a, b', c]" and nd: "a \<noteq> 0x2E" "b' \<noteq> 0x2E" "c \<noteq> 0x2E" by blast
  have base: "basename p = stem @ 0x2E # [a, b', c]" using b e4 by simp
  have "0x2E \<notin> set [a, b', c]" using nd by simp
  from afterLastDot_append [OF this, of stem] have al: "afterLastDot (basename p) = [a, b', c]"
    unfolding base .
  have "0x2E \<in> set (basename p)" unfolding base by simp
  moreover have "length (basename p) \<noteq> Suc (length (afterLastDot (basename p)))"
    unfolding al using st unfolding base by simp
  moreover have "basename p \<noteq> [0x2E, 0x2E]" using st unfolding base by simp
  ultimately have "posixExtname p = 0x2E # [a, b', c]"
    by (simp add: posixExtname_def Let_def al)
  with e e4 show "toLowerCase (posixExtname p) = js ''.doc''" by simp
qed

lemma browser_rejects_iff:
  "(let filename = toLowerCase p
    in if 0x2E \<in> set filename then 0x2E # afterLastDot filename else []) = js ''.doc''
   \<longleftrightarrow> (\<exists>pre. toLowerCase p = pre @ js ''.doc'')"
proof
  let ?f = "toLowerCase p"
  assume l: "(let filename = ?f in if 0x2E \<in> set filename then 0x2E # afterLastDot filename else [])
      = js ''.doc''"
  have "[] \<noteq> js ''.doc''" by (simp add: js_def)
  with l have dot: "0x2E \<in> set ?f" and ext: "0x2E # afterLastDot ?f = js ''.doc''"
    by (auto simp: Let_def split: if_splits)
  from split_last_dot [OF dot] obtain stem where "?f = stem @ 0x2E # afterLastDot ?f" by blast
  then have "?f = stem @ js ''.doc''" unfolding ext .
  then show "\<exists>pre. ?f = pre @ js ''.doc''" by (rule exI)
next
  assume "\<exists>pre. toLowerCase p = pre @ js ''.doc''"
  then obtain pre where f: "toLowerCase p = pre @ 0x2E # js ''doc''" by (auto simp: js_def)
  have "0x2E \<notin> set (js ''doc'')" by (simp add: js_def)
  from afterLastDot_append [OF this, of pre] have "afterLastDot (toLowerCase p) = js ''doc''"
    unfolding f .
  moreover have "0x2E \<in> set (toLowerCase p)" unfolding f by simp
  ultimately show "(let filename = toLowerCase p
      in if 0x2E \<in> set filename then 0x2E # afterLastDot filename else []) = js ''.doc''"
    by (simp add: Let_def js_def)
qed

lemma convert_rejected:
  "validateFileExtension (path_extname env) p = Inl e \<Longrightarrow>
   convert env (Path p) options st = ([], Inl e, st)"
  by (simp add: convert_def)

lemma convert_attempted:
  "validateFileExtension (path_extname env) p = Inr u \<Longrightarrow>
   fst (convert env (Path p) options st) = [MammothConvertToHtml (Path p)]
   \<and> \<not> isUnsupportedFileError (fst (snd (convert env (Path p) options st)))"
  by (simp add: convert_def Let_def split: sum.splits prod.splits)

text \<open>
  C1, as the code has it. Under Node.js, \<open>convert\<close> on a path throws the error for an
  unsupported format, before any extraction call and leaving the state as it is, exactly
  when the last portion of the path (trailing slashes ignored) is a non-empty stem followed
  by an extension that is \<open>.doc\<close> in lower case; otherwise it calls the extraction on the
  path and does not throw that error. Without the \<open>path\<close> module (the browser) the same
  holds with the condition that the lower-cased path ends in \<open>.doc\<close>.
\<close>

theorem doc_extension_validation:
  "(path_extname env = Some posixExtname \<longrightarrow>
      (if \<exists>stem e. basename p = stem @ e \<and> stem \<noteq> [] \<and> toLowerCase e = js ''.doc''
       then convert env (Path p) options st
              = ([], Inl (UnsupportedFileError unsupportedMessage), st)
       else fst (convert env (Path p) options st) = [MammothConvertToHtml (Path p)]
            \<and> \<not> isUnsupportedFileError (fst (snd (convert env (Path p) options st)))))
   \<and> (path_extname env = None \<longrightarrow>
      (if \<exists>pre. toLowerCase p = pre @ js ''.doc''
       then convert env (Path p) options st
              = ([], Inl (UnsupportedFileError unsupportedMessage), st)
       else fst (convert env (Path p) options st) = [MammothConvertToHtml (Path p)]
            \<and> \<not> isUnsupportedFileError (fst (snd (convert env (Path p) options st)))))"
proof (intro conjI impI)
  assume n: "path_extname env = Some posixExtname"
  have v: "validateFileExtension (path_extname env) p =
      (if toLowerCase (posixExtname p) = js ''.doc''
       then Inl (UnsupportedFileError unsupportedMessage) else Inr ())"
    unfolding n by (simp add: validateFileExtension_def)
  show "if \<exists>stem e. basename p = stem @ e \<and> stem \<noteq> [] \<and> toLowerCase e = js ''.doc''
       then convert env (Path p) options st
              = ([], Inl (UnsupportedFileError unsupportedMessage), st)
       else fst (convert env (Path p) options st) = [MammothConvertToHtml (Path p)]
            \<and> \<not> isUnsupportedFileError (fst (snd (convert env (Path p) options st)))"
  proof (cases "toLowerCase (posixExtname p) = js ''.doc''")
    case True
    with v have "validateFileExtension (path_extname env) p
        = Inl (UnsupportedFileError unsupportedMessage)" by simp
    from convert_rejected [OF this] True show ?thesis
      unfolding node_rejects_iff [symmetric] by simp
  next
    case False
    with v have "validateFileExtension (path_extname env) p = Inr ()" by simp
    from convert_attempted [OF this] False show ?thesis
      unfolding node_rejects_iff [symmetric] by simp
  qed
next
  assume b: "path_extname env = None"
  let ?ext = "let filename = toLowerCase p
      in if 0x2E \<in> set filename then 0x2E # afterLastDot filename else []"
  have v: "validateFileExtension (path_extname env) p =
      (if ?ext = js ''.doc'' then Inl (UnsupportedFileError unsupportedMessage) else Inr ())"
    unfolding b by (simp add: validateFileExtension_def Let_def)
  show "if \<exists>pre. toLowerCase p = pre @ js ''.doc''
       then convert env (Path p) options st
              = ([], Inl (UnsupportedFileError unsupportedMessage), st)
       else fst (convert env (Path p) options st) = [MammothConvertToHtml (Path p)]
            \<and> \<not> isUnsupportedFileError (fst (snd (convert env (Path p) options st)))"
  proof (cases "?ext = js ''.doc''")
    case True
    with v have "validateFileExtension (path_extname env) p
        = Inl (UnsupportedFileError unsupportedMessage)" by simp
    from convert_rejected [OF this] True show ?thesis
      unfolding browser_rejects_iff [symmetric] by simp
  next
    case False
    with v have "validateFileExtension (path_extname env) p = Inr ()" by simp
    from convert_attempted [OF this] False show ?thesis
      unfolding browser_rejects_iff [symmetric] by simp
  qed
qed

lemma posixExtname_examples:
  "toLowerCase (posixExtname (js ''report.DOC'')) = js ''.doc''"
  "toLowerCase (posixExtname (js ''notes.txt'')) \<noteq> js ''.doc''"
  "toLowerCase (posixExtname (js ''.doc'')) \<noteq> js ''.doc''"
  by (simp_all add: posixExtname_def basename_def afterLastDot_def toLowerCase_def js_def)

theorem doc_extension_validation_witness:
  "convert exampleEnv (Path (js ''report.DOC'')) noOptions initialState
     = ([], Inl (UnsupportedFileError unsupportedMessage), initialState)
   \<and> fst (convert exampleEnv (Path (js ''notes.txt'')) noOptions initialState)
       = [MammothConvertToHtml (Path (js ''notes.txt''))]
   \<and> convert (exampleEnv\<lparr>path_extname := None\<rparr>) (Path (js ''.doc'')) noOptions initialState
       = ([], Inl (UnsupportedFileError unsupportedMessage), initialState)
   \<and> fst (convert (exampleEnv\<lparr>path_extname := None\<rparr>) (Path (js ''notes.txt'')) noOptions
         initialState)
       = [MammothConvertToHtml (Path (js ''notes.txt''))]"
proof -
  have n: "path_extname exampleEnv = Some posixExtname"
    and b: "path_extname (exampleEnv\<lparr>path_extname := None\<rparr>) = None"
    by (simp_all add: exampleEnv_def)
  have c1: "\<exists>stem e. basename (js ''report.DOC'') = stem @ e \<and> stem \<noteq> []
      \<and> toLowerCase e = js ''.doc''"
    using posixExtname_examples(1) unfolding node_rejects_iff .
  have c2: "\<not> (\<exists>stem e. basename (js ''notes.txt'') = stem @ e \<and> stem \<noteq> []
      \<and> toLowerCase e = js ''.doc'')"
    using posixExtname_examples(2) unfolding node_rejects_iff .
  have c3: "\<exists>pre. toLowerCase (js ''.doc'') = pre @ js ''.doc''"
    by (rule exI [of _ "[]"]) (simp add: toLowerCase_def js_def)
  have "(let filename = toLowerCase (js ''notes.txt'')
      in if 0x2E \<in> set filename then 0x2E # afterLastDot filename else []) \<noteq> js ''.doc''"
    by (simp add: afterLastDot_def toLowerCase_def js_def)
  then have c4: "\<not> (\<exists>pre. toLowerCase (js ''notes.txt'') = pre @ js ''.doc'')"
    unfolding browser_rejects_iff .
  from doc_extension_validation [of exampleEnv "js ''report.DOC''" noOptions initialState] n c1
  have "convert exampleEnv (Path (js ''report.DOC'')) noOptions initialState
     = ([], Inl (UnsupportedFileError unsupportedMessage), initialState)"
    by simp
  moreover
  from doc_extension_validation [of exampleEnv "js ''notes.txt''" noOptions initialState] n c2
  have "fst (convert exampleEnv (Path (js ''notes.txt'')) noOptions initialState)
       = [MammothConvertToHtml (Path (js ''notes.txt''))]"
    by simp
  moreover
  from doc_extension_validation [of "exampleEnv\<lparr>path_extname := None\<rparr>" "js ''.doc''"
      noOptions initialState] b c3
  have "convert (exampleEnv\<lparr>path_extname := None\<rparr>) (Path (js ''.doc'')) noOptions initialState
       = ([], Inl (UnsupportedFileError unsupportedMessage), initialState)"
    by simp
  moreover
  from doc_extension_validation [of "exampleEnv\<lparr>path_extname := None\<rparr>" "js ''notes.txt''"
      noOptions initialState] b c4
  have "fst (convert (exampleEnv\<lparr>path_extname := None\<rparr>) (Path (js ''notes.txt'')) noOptions
         initialState)
       = [MammothConvertToHtml (Path (js ''notes.txt''))]"
    by simp
  ultimately show ?thesis by simp
qed

text \<open>
  C1 as the claim states it fails under Node.js: the path \<open>.doc\<close> ends in \<open>.doc\<close>, but its
  last portion is a dot file without extension for \<open>path.extname\<close>; \<open>convert\<close> does not
  throw the error for an unsupported format and calls the extraction.
\<close>

theorem dot_file_doc_not_rejected:
  "toLowerCase (js ''.doc'') = [] @ js ''.doc''
   \<and> convert exampleEnv (Path (js ''.doc'')) noOptions initialState
       = ([MammothConvertToHtml (Path (js ''.doc''))],
          Inl (ExtractionFailure (js ''Could not find file in options'')), initialState)"
proof -
  have "validateFileExtension (path_extname exampleEnv) (js ''.doc'') = Inr ()"
    using posixExtname_examples(3) by (simp add: validateFileExtension_def exampleEnv_def)
  then have "convert exampleEnv (Path (js ''.doc'')) noOptions initialState
       = ([MammothConvertToHtml (Path (js ''.doc''))],
          Inl (ExtractionFailure (js ''Could not find file in options'')), initialState)"
    by (simp add: convert_def) (simp add: exampleEnv_def)
  moreover have "toLowerCase (js ''.doc'') = [] @ js ''.doc''"
    by (simp add: toLowerCase_def js_def)
  ultimately show ?thesis by simp
qed

end
